theory Spec2Isabelle
  imports Main "HOL-Library.Char_ord" "HOL-Library.List_Lexorder" "HOL-Library.Sublist"
begin

section \<open>Strings and the JavaScript library functions the engine calls\<close>

text \<open>
  A JavaScript string is modelled as a \<open>string\<close> (a list of characters); a character is one
  code unit in the range 0..255. Offsets are indices into that list, as \<open>match.index\<close>,
  \<open>indexOf\<close> and \<open>substring\<close> count them.
\<close>

definition isSpace :: "char \<Rightarrow> bool" where
  \<comment> \<open>the class \<open>\s\<close>: TAB, LF, VT, FF, CR, SPACE and NBSP\<close>
  "isSpace c = (of_char c \<in> {9, 10, 11, 12, 13, 32, 160 :: nat})"

definition isAlpha :: "char \<Rightarrow> bool" where
  \<comment> \<open>the class \<open>[a-zA-Z]\<close>\<close>
  "isAlpha c = ((CHR ''a'' \<le> c \<and> c \<le> CHR ''z'') \<or> (CHR ''A'' \<le> c \<and> c \<le> CHR ''Z''))"

definition isLowerAlpha :: "char \<Rightarrow> bool" where
  \<comment> \<open>the class \<open>[a-z]\<close>\<close>
  "isLowerAlpha c = (CHR ''a'' \<le> c \<and> c \<le> CHR ''z'')"

definition toLowerChar :: "char \<Rightarrow> char" where
  \<comment> \<open>\<open>toLowerCase\<close> on one code unit: A..Z and the upper-case letters of Latin-1\<close>
  "toLowerChar c =
     (let n = of_char c :: nat
      in if (65 \<le> n \<and> n \<le> 90) \<or> (192 \<le> n \<and> n \<le> 222 \<and> n \<noteq> 215)
         then char_of (n + 32) else c)"

definition toLowerCase :: "string \<Rightarrow> string" where
  "toLowerCase word = map toLowerChar word"

definition endsWith :: "string \<Rightarrow> string \<Rightarrow> bool" where
  "endsWith s t = suffix t s"

definition startsWith :: "string \<Rightarrow> string \<Rightarrow> bool" where
  "startsWith s t = prefix t s"

fun lastIndexOf :: "string \<Rightarrow> char \<Rightarrow> nat \<Rightarrow> int" where
  \<comment> \<open>\<open>s.lastIndexOf(c, i)\<close>: the greatest index at most \<open>i\<close> holding \<open>c\<close>, or -1\<close>
  "lastIndexOf s c 0 = (if s \<noteq> [] \<and> s ! 0 = c then 0 else - 1)"
| "lastIndexOf s c (Suc i) =
     (if Suc i < length s \<and> s ! Suc i = c then int (Suc i) else lastIndexOf s c i)"

definition indexOf :: "string \<Rightarrow> char \<Rightarrow> nat \<Rightarrow> int" where
  \<comment> \<open>\<open>s.indexOf(c, i)\<close>: the least index from \<open>i\<close> on holding \<open>c\<close>, or -1\<close>
  "indexOf s c i =
     (let k = i + length (takeWhile (\<lambda>x. x \<noteq> c) (drop i s))
      in if k < length s then int k else - 1)"

definition substring :: "string \<Rightarrow> nat \<Rightarrow> nat \<Rightarrow> string" where
  \<comment> \<open>\<open>s.substring(a, b)\<close>: both ends clamped to the length, swapped when \<open>a > b\<close>\<close>
  "substring s a b =
     (let a' = min a (length s); b' = min b (length s);
          lo = min a' b'; hi = max a' b'
      in take (hi - lo) (drop lo s))"

function splitSpaces :: "string \<Rightarrow> string list" where
  \<comment> \<open>\<open>text.split(/\s+/)\<close>\<close>
  "splitSpaces cs =
     (let tok = takeWhile (\<lambda>c. \<not> isSpace c) cs;
          rest = dropWhile (\<lambda>c. \<not> isSpace c) cs
      in if rest = [] then [tok] else tok # splitSpaces (dropWhile isSpace rest))"
  by pat_completeness auto
termination
proof (relation "measure length")
  show "wf (measure length)" by simp
next
  fix cs :: string and tok rest
  assume r: "rest = dropWhile (\<lambda>c. \<not> isSpace c) cs" and ne: "rest \<noteq> []"
  have "isSpace (hd rest)"
    using r ne hd_dropWhile [of "\<lambda>c. \<not> isSpace c" cs] by auto
  then have "length (dropWhile isSpace rest) < length rest"
    using ne by (cases rest) (auto simp: le_imp_less_Suc length_dropWhile_le)
  moreover have "length rest \<le> length cs"
    using r by (simp add: length_dropWhile_le)
  ultimately show "(dropWhile isSpace rest, cs) \<in> measure length" by simp
qed

text \<open>
  A \<open>Set\<close> iterates in insertion order; \<open>newSet xs\<close> is the iteration order of
  \<open>new Set(xs)\<close>. A \<open>Map\<close> whose values are arrays is a list of pairs in insertion order;
  \<open>mapPush k v m\<close> is the idiom \<open>if (!m.get(k)) m.set(k, []); m.get(k).push(v)\<close>.
\<close>

definition setAdd :: "'a list \<Rightarrow> 'a \<Rightarrow> 'a list" where
  "setAdd acc x = (if x \<in> set acc then acc else acc @ [x])"

definition newSet :: "'a list \<Rightarrow> 'a list" where
  "newSet xs = foldl setAdd [] xs"

fun mapPush :: "'k \<Rightarrow> 'v \<Rightarrow> ('k \<times> 'v list) list \<Rightarrow> ('k \<times> 'v list) list" where
  "mapPush k v [] = [(k, [v])]"
| "mapPush k v ((k', vs) # m) =
     (if k = k' then (k', vs @ [v]) # m else (k', vs) # mapPush k v m)"

fun setField :: "'k \<Rightarrow> 'v \<Rightarrow> ('k \<times> 'v) list \<Rightarrow> ('k \<times> 'v) list" where
  \<comment> \<open>assignment to a property: an existing one keeps its place, a new one goes last\<close>
  "setField k v [] = [(k, v)]"
| "setField k v ((k', v') # fs) =
     (if k = k' then (k', v) # fs else (k', v') # setField k v fs)"

text \<open>
  \<open>Object.entries\<close> lists the properties whose names are array indices first, in ascending
  numeric order, then the others in insertion order.
\<close>

definition isDigit :: "char \<Rightarrow> bool" where
  "isDigit c = (CHR ''0'' \<le> c \<and> c \<le> CHR ''9'')"

definition digitsValue :: "string \<Rightarrow> nat" where
  "digitsValue k = foldl (\<lambda>n c. 10 * n + (of_char c - 48)) 0 k"

definition isArrayIndex :: "string \<Rightarrow> bool" where
  "isArrayIndex k =
     (k \<noteq> [] \<and> list_all isDigit k \<and> (k = ''0'' \<or> hd k \<noteq> CHR ''0'')
      \<and> digitsValue k < 4294967295)"

definition objectEntries :: "(string \<times> 'v) list \<Rightarrow> (string \<times> 'v) list" where
  "objectEntries fields =
     sort_key (\<lambda>e. digitsValue (fst e)) (filter (\<lambda>e. isArrayIndex (fst e)) fields)
     @ filter (\<lambda>e. \<not> isArrayIndex (fst e)) fields"

fun insertBy :: "('a \<Rightarrow> 'a \<Rightarrow> int) \<Rightarrow> 'a \<Rightarrow> 'a list \<Rightarrow> 'a list" where
  "insertBy cmp x [] = [x]"
| "insertBy cmp x (y # ys) = (if cmp x y \<le> 0 then x # y # ys else y # insertBy cmp x ys)"

definition sortBy :: "('a \<Rightarrow> 'a \<Rightarrow> int) \<Rightarrow> 'a list \<Rightarrow> 'a list" where
  \<comment> \<open>\<open>xs.sort(cmp)\<close>, a stable sort\<close>
  "sortBy cmp xs = foldr (insertBy cmp) xs []"

section \<open>The normalizer\<close>

definition stem :: "string \<Rightarrow> string" where
  \<comment> \<open>\<open>word.replace(/\'s$/, '')\<close>\<close>
  "stem word =
     (if endsWith word [CHR 0x27, CHR ''s''] then take (length word - 2) word else word)"

definition normalize :: "string \<Rightarrow> string" where
  \<comment> \<open>\<open>stem(word.toLowerCase()).replace(/[^a-z]/g, '')\<close>\<close>
  "normalize word = filter isLowerAlpha (stem (toLowerCase word))"

definition execWordRegex :: "string \<Rightarrow> nat \<Rightarrow> (string \<times> nat \<times> nat) option" where
  \<comment> \<open>\<open>WORD_REGEX.exec(content)\<close> with \<open>lastIndex = i\<close>: the match, its index and the
      new \<open>lastIndex\<close>; \<open>None\<close> is \<open>null\<close>\<close>
  "execWordRegex content i =
     (let j = i + length (takeWhile isSpace (drop i content));
          m = takeWhile (\<lambda>c. \<not> isSpace c) (drop j content)
      in if m = [] then None else Some (m, j, j + length m))"

section \<open>The engine state\<close>

text \<open>
  The four collections of the database, each keyed by \<open>_id\<close>, and the set of noise words
  the object caches. A document of the \<open>words\<close> collection is the list of its fields other
  than \<open>_id\<close>, in field order: one field per document name, holding the pair
  \<open>[count, offset]\<close>. The \<open>_id\<close> of a completions document is \<open>word[0]\<close>, which is
  \<open>undefined\<close> (\<open>None\<close>) for the empty word. The store itself is taken to be reliable;
  the failures modelled are the ones the engine's own requests provoke.

  \<open>_saveWords\<close> uses the document name as the key of a \<open>$set\<close>, which the database
  reads as a path, and \<open>_findDocs\<close> reads the fields back with \<open>Object.entries\<close>. The
  model of the \<open>words\<close> collection describes the code for the names that are one plain
  field: \<open>plainName\<close>, a non-empty name with no dot and no NUL, not beginning with a dollar
  sign, and neither \<open>_id\<close> nor \<open>__proto__\<close>. For any other name the code does something
  else, which this model does not describe (a dotted name such as \<open>a.b\<close> is stored as the
  field \<open>b\<close> of a nested document \<open>a\<close>, the update is refused for an empty name, a leading
  dollar sign or \<open>_id\<close>, and a field named \<open>__proto__\<close> is not listed on reading); every
  property below that depends on the fields of an index entry is stated for plain names.
\<close>

definition plainName :: "string \<Rightarrow> bool" where
  "plainName name =
     (name \<noteq> [] \<and> CHR ''.'' \<notin> set name \<and> CHR 0x00 \<notin> set name \<and> hd name \<noteq> CHR ''$''
      \<and> name \<noteq> ''_id'' \<and> name \<noteq> ''__proto__'')"

datatype error = NOT_FOUND string | MongoError

type_synonym wordInfo = "nat \<times> nat"

record state =
  contentsTable :: "string \<rightharpoonup> string"
  noiseTable :: "string set"
  wordsTable :: "string \<rightharpoonup> (string \<times> wordInfo) list"
  completionsTable :: "char option \<rightharpoonup> string list"
  noiseWords :: "string set"

definition emptyState :: state where
  "emptyState = \<lparr>contentsTable = Map.empty, noiseTable = {}, wordsTable = Map.empty,
                  completionsTable = Map.empty, noiseWords = {}\<rparr>"

definition create :: "state \<Rightarrow> state" where
  \<comment> \<open>attaching to a database: the cache is read from the \<open>noise\<close> collection\<close>
  "create s = s\<lparr>noiseWords := noiseTable s\<rparr>"

definition clear :: "state \<Rightarrow> state" where
  "clear s = s\<lparr>completionsTable := Map.empty, contentsTable := Map.empty,
               noiseTable := {}, wordsTable := Map.empty\<rparr>"

function wordsLoop :: "string set \<Rightarrow> string \<Rightarrow> nat \<Rightarrow> (string \<times> nat) list" where
  "wordsLoop noise content i =
     (case execWordRegex content i of
        None \<Rightarrow> []
      | Some (m, j, k) \<Rightarrow>
          (let word = normalize m
           in (if word \<noteq> [] \<and> word \<notin> noise then [(word, j)] else [])
              @ wordsLoop noise content k))"
  by pat_completeness auto

lemma execWordRegex_bounds:
  assumes "execWordRegex content i = Some (m, j, k)"
  shows "i < k" and "k \<le> length content" and "i \<le> j" and "k = j + length m" and "m \<noteq> []"
proof -
  let ?j = "i + length (takeWhile isSpace (drop i content))"
  let ?m = "takeWhile (\<lambda>c. \<not> isSpace c) (drop ?j content)"
  from assms have ne: "?m \<noteq> []" and m: "m = ?m" and j: "j = ?j" and k: "k = ?j + length ?m"
    by (auto simp: execWordRegex_def Let_def split: if_splits)
  show "m \<noteq> []" using ne m by simp
  show "i \<le> j" using j by simp
  show "k = j + length m" using j k m by simp
  show "i < k" using ne k by (cases ?m) auto
  have "length ?m \<le> length (drop ?j content)" by (rule length_takeWhile_le)
  moreover have "drop ?j content \<noteq> []" using ne by auto
  ultimately show "k \<le> length content" using k by auto
qed

termination wordsLoop
proof (relation "measure (\<lambda>(noise, content, i). Suc (length content) - i)")
  show "wf (measure (\<lambda>(noise, content, i). Suc (length content) - i))" by simp
next
  fix noise :: "string set" and content :: string and i :: nat and x2 m y j k
  assume "execWordRegex content i = Some x2" and "(m, y) = x2" and "(j, k) = y"
  then have "execWordRegex content i = Some (m, j, k)" by simp
  from execWordRegex_bounds(1,2) [OF this]
  show "((noise, content, k), (noise, content, i))
          \<in> measure (\<lambda>(noise, content, i). Suc (length content) - i)" by simp
qed

definition wordsLow :: "string \<Rightarrow> state \<Rightarrow> (string \<times> nat) list" where
  \<comment> \<open>\<open>_wordsLow\<close>\<close>
  "wordsLow content s = wordsLoop (noiseWords s) content 0"

definition words :: "string \<Rightarrow> state \<Rightarrow> string list" where
  "words contentText s = map fst (wordsLow contentText s)"

section \<open>Ingestion\<close>

text \<open>
  \<open>_makeIndex\<close> starts from the object literal \<open>{}\<close>, so the lookup \<open>index[word]\<close> also
  sees what \<open>Object.prototype\<close> provides. Of its properties only \<open>constructor\<close> is spelt in
  lower-case letters alone, so it is the only one a normalized word can name: for that word
  the lookup yields the function \<open>Object\<close>, which is truthy, the increment of its element 0
  leaves it a function, and the index stores it. The driver does not serialise a function,
  so the update sent for that word has an empty \<open>$set\<close>, which the server rejects.
\<close>

datatype indexValue = WordInfo nat nat | ObjectConstructor

definition indexGet :: "(string \<times> indexValue) list \<Rightarrow> string \<Rightarrow> indexValue option" where
  \<comment> \<open>\<open>index[word]\<close>; \<open>None\<close> is \<open>undefined\<close>\<close>
  "indexGet index word =
     (case map_of index word of
        Some v \<Rightarrow> Some v
      | None \<Rightarrow> if word = ''constructor'' then Some ObjectConstructor else None)"

definition indexStep :: "(string \<times> indexValue) list \<Rightarrow> string \<times> nat \<Rightarrow> (string \<times> indexValue) list" where
  "indexStep index pair =
     (let word = fst pair; offset = snd pair;
          wordInfo = (case indexGet index word of Some v \<Rightarrow> v | None \<Rightarrow> WordInfo 0 offset);
          wordInfo' = (case wordInfo of WordInfo c off \<Rightarrow> WordInfo (c + 1) off
                        | ObjectConstructor \<Rightarrow> ObjectConstructor)
      in setField word wordInfo' index)"

definition makeIndex :: "string \<Rightarrow> state \<Rightarrow> (string \<times> indexValue) list" where
  \<comment> \<open>\<open>_makeIndex\<close>; the keys are words over a..z, never array indices, so the list order
      is the order of \<open>Object.entries(index)\<close>\<close>
  "makeIndex contentText s = foldl indexStep [] (wordsLow contentText s)"

definition saveContents :: "string \<Rightarrow> string \<Rightarrow> state \<Rightarrow> state" where
  \<comment> \<open>\<open>_saveContents\<close>\<close>
  "saveContents name contentsText s =
     s\<lparr>contentsTable := (contentsTable s)(name \<mapsto> contentsText)\<rparr>"

definition updateOneSet ::
  "(string \<rightharpoonup> (string \<times> wordInfo) list) \<Rightarrow> string \<Rightarrow> string \<Rightarrow> wordInfo
     \<Rightarrow> (string \<rightharpoonup> (string \<times> wordInfo) list)" where
  \<comment> \<open>\<open>updateOne({_id: word}, {$set: {[name]: wordInfo}}, {upsert: true})\<close>, for a
      \<open>name\<close> that is one plain field (\<open>plainName\<close>): the path \<open>name\<close> is then that field\<close>
  "updateOneSet table word name wordInfo =
     table(word \<mapsto> setField name wordInfo (case table word of None \<Rightarrow> [] | Some fs \<Rightarrow> fs))"

fun saveWords :: "string \<Rightarrow> (string \<times> indexValue) list \<Rightarrow> state \<Rightarrow> (error + unit) \<times> state" where
  \<comment> \<open>\<open>_saveWords\<close>\<close>
  "saveWords name [] s = (Inr (), s)"
| "saveWords name ((word, wordInfo) # rest) s =
     (case wordInfo of
        ObjectConstructor \<Rightarrow> (Inl MongoError, s)
      | WordInfo c off \<Rightarrow>
          saveWords name rest (s\<lparr>wordsTable := updateOneSet (wordsTable s) word name (c, off)\<rparr>))"

definition firstChar :: "string \<Rightarrow> char option" where
  \<comment> \<open>\<open>word[0]\<close>; \<open>None\<close> is \<open>undefined\<close>\<close>
  "firstChar word = (case word of [] \<Rightarrow> None | c # _ \<Rightarrow> Some c)"

definition makeCompletions :: "string list \<Rightarrow> (char option \<times> string list) list" where
  \<comment> \<open>\<open>_makeCompletions\<close>\<close>
  "makeCompletions ws = foldl (\<lambda>completions word. mapPush (firstChar word) word completions) [] ws"

definition completionStep :: "state \<Rightarrow> char option \<times> string list \<Rightarrow> state" where
  "completionStep s entry =
     (let c = fst entry;
          previous = (case completionsTable s c of Some ws \<Rightarrow> ws | None \<Rightarrow> []);
          cWords = newSet (snd entry @ previous)
      in s\<lparr>completionsTable := (completionsTable s)(c \<mapsto> cWords)\<rparr>)"

definition updateCompletions :: "string list \<Rightarrow> state \<Rightarrow> state" where
  \<comment> \<open>\<open>_updateCompletions\<close>\<close>
  "updateCompletions ws s = foldl completionStep s (makeCompletions ws)"

definition addContent :: "string \<Rightarrow> string \<Rightarrow> state \<Rightarrow> (error + unit) \<times> state" where
  "addContent name contentText s =
     (let contentText' =
            (if endsWith contentText [CHR 0x0A] then contentText else contentText @ [CHR 0x0A]);
          s1 = saveContents name contentText' s;
          index = makeIndex contentText' s1
      in case saveWords name index s1 of
           (Inl e, s2) \<Rightarrow> (Inl e, s2)
         | (Inr u, s2) \<Rightarrow> (Inr (), updateCompletions (map fst index) s2))"

section \<open>Noise words\<close>

fun insertMany :: "string list \<Rightarrow> string set \<Rightarrow> (error + unit) \<times> string set" where
  \<comment> \<open>an ordered \<open>insertMany\<close>: it stops at the first \<open>_id\<close> the collection already has\<close>
  "insertMany [] table = (Inr (), table)"
| "insertMany (d # ds) table =
     (if d \<in> table then (Inl MongoError, table) else insertMany ds (insert d table))"

definition addNoiseWords :: "string \<Rightarrow> state \<Rightarrow> (error + unit) \<times> state" where
  "addNoiseWords noiseText s =
     (let noise = filter (\<lambda>n. n \<notin> noiseWords s) (newSet (words noiseText s))
      in if noise \<noteq> []
         then (case insertMany noise (noiseTable s) of
                 (Inl e, table) \<Rightarrow> (Inl e, s\<lparr>noiseTable := table\<rparr>)
               | (Inr u, table) \<Rightarrow>
                   (Inr (), s\<lparr>noiseTable := table, noiseWords := noiseWords s \<union> set noise\<rparr>))
         else (Inr (), s))"

section \<open>Queries\<close>

definition docContent :: "string \<Rightarrow> state \<Rightarrow> (error + string) \<times> state" where
  "docContent name s =
     (case contentsTable s name of
        Some contents \<Rightarrow> (Inr contents, s)
      | None \<Rightarrow> (Inl (NOT_FOUND (''doc '' @ name @ '' not found'')), s))"

datatype result = Result (nameOf: string) (scoreOf: nat) (linesOf: "string list")

datatype offsetResult = OffsetResult string nat "nat list"

fun toResult :: "offsetResult \<Rightarrow> string \<Rightarrow> result" where
  \<comment> \<open>\<open>OffsetResult.result\<close>\<close>
  "toResult (OffsetResult name score offsets) contents =
     (let starts = newSet (map (\<lambda>o'. nat (lastIndexOf contents (CHR 0x0A) o' + 1)) offsets);
          lines = map (\<lambda>i. substring contents i (nat (indexOf contents (CHR 0x0A) i + 1)))
                      (sort starts)
      in Result name score lines)"

definition compareResults :: "(string \<Rightarrow> string \<Rightarrow> int) \<Rightarrow> result \<Rightarrow> result \<Rightarrow> int" where
  \<comment> \<open>\<open>localeCompare\<close> depends on the collation of the host; it is a parameter\<close>
  "compareResults localeCompare result1 result2 =
     (let d = int (scoreOf result2) - int (scoreOf result1)
      in if d \<noteq> 0 then d else localeCompare (nameOf result1) (nameOf result2))"

definition findDocs :: "string list \<Rightarrow> state \<Rightarrow> (string \<times> wordInfo list) list" where
  \<comment> \<open>\<open>_findDocs\<close>, for entries whose fields other than \<open>_id\<close> are plain names holding
      a pair, as \<open>updateOneSet\<close> leaves them\<close>
  "findDocs terms s =
     foldl (\<lambda>docs term.
              case wordsTable s term of
                None \<Rightarrow> docs
              | Some termIndex \<Rightarrow>
                  foldl (\<lambda>docs entry. mapPush (fst entry) (snd entry) docs) docs
                        (objectEntries termIndex))
           [] terms"

fun findResults :: "(string \<times> wordInfo list) list \<Rightarrow> state \<Rightarrow> error + result list" where
  \<comment> \<open>the loop of \<open>find\<close> over \<open>docs.entries()\<close>\<close>
  "findResults [] s = Inr []"
| "findResults ((name, wordInfos) # rest) s =
     (case fst (docContent name s) of
        Inl e \<Rightarrow> Inl e
      | Inr doc \<Rightarrow>
          (let score = foldl (\<lambda>acc wordInfo. acc + fst wordInfo) 0 wordInfos;
               offsets = map snd wordInfos;
               r = toResult (OffsetResult name score offsets) doc
           in case findResults rest s of Inl e \<Rightarrow> Inl e | Inr results \<Rightarrow> Inr (r # results)))"

definition find :: "(string \<Rightarrow> string \<Rightarrow> int) \<Rightarrow> string \<Rightarrow> state \<Rightarrow> error + result list" where
  "find localeCompare text s =
     (let terms = newSet (words text s);
          docs = findDocs terms s
      in case findResults docs s of
           Inl e \<Rightarrow> Inl e
         | Inr results \<Rightarrow> Inr (sortBy (compareResults localeCompare) results))"

definition complete :: "string \<Rightarrow> state \<Rightarrow> string list" where
  "complete text s =
     (if \<not> (text \<noteq> [] \<and> isAlpha (last text)) then []
      else (let word = last (map normalize (splitSpaces text));
                completions = (case completionsTable s (firstChar word) of
                                 Some ws \<Rightarrow> ws | None \<Rightarrow> [])
            in filter (\<lambda>w. startsWith w word) (sort completions)))"

section \<open>Vocabulary of the properties\<close>

text \<open>The normalized words of a text, whatever the noise words are.\<close>

definition normalizedWords :: "string \<Rightarrow> string list" where
  "normalizedWords text = map fst (wordsLoop {} text 0)"

text \<open>
  What \<open>_saveWords\<close> and \<open>_updateCompletions\<close> leave in their collections, as functions
  of the collection before; used to state what \<open>addContent\<close> writes.
\<close>

fun savedTable ::
  "string \<Rightarrow> (string \<times> indexValue) list \<Rightarrow> (string \<rightharpoonup> (string \<times> wordInfo) list)
     \<Rightarrow> (string \<rightharpoonup> (string \<times> wordInfo) list)" where
  "savedTable name [] table = table"
| "savedTable name ((word, v) # rest) table =
     (case v of
        ObjectConstructor \<Rightarrow> table
      | WordInfo c off \<Rightarrow> savedTable name rest (updateOneSet table word name (c, off)))"

definition savedOk :: "(string \<times> indexValue) list \<Rightarrow> bool" where
  "savedOk index = list_all (\<lambda>e. snd e \<noteq> ObjectConstructor) index"

definition okPrefix :: "(string \<times> indexValue) list \<Rightarrow> (string \<times> indexValue) list" where
  "okPrefix index = takeWhile (\<lambda>e. snd e \<noteq> ObjectConstructor) index"

definition fieldsOf :: "('k \<rightharpoonup> 'f list) \<Rightarrow> 'k \<Rightarrow> 'f list" where
  "fieldsOf table k = (case table k of None \<Rightarrow> [] | Some fs \<Rightarrow> fs)"

definition completedTable ::
  "(char option \<times> string list) list \<Rightarrow> (char option \<rightharpoonup> string list)
     \<Rightarrow> (char option \<rightharpoonup> string list)" where
  "completedTable completions table =
     (\<lambda>k. case map_of completions k of
             None \<Rightarrow> table k
           | Some cs \<Rightarrow> Some (newSet (cs @ fieldsOf table k)))"

definition withNewline :: "string \<Rightarrow> string" where
  "withNewline text = (if endsWith text [CHR 0x0A] then text else text @ [CHR 0x0A])"

definition addedIndex :: "string \<Rightarrow> state \<Rightarrow> (string \<times> indexValue) list" where
  "addedIndex text s = makeIndex (withNewline text) s"

text \<open>
  A well-formed word is a non-empty string of the letters a..z. A well-formed state keys its
  inverted index by such words, holds only such words as noise, and lists under every
  completion key a non-empty list of such words, each beginning with the key.
\<close>

definition wfWord :: "string \<Rightarrow> bool" where
  "wfWord w = (w \<noteq> [] \<and> list_all isLowerAlpha w)"

definition wellFormed :: "state \<Rightarrow> bool" where
  "wellFormed s =
     ((\<forall>w. wordsTable s w \<noteq> None \<longrightarrow> wfWord w)
      \<and> (\<forall>w \<in> noiseTable s \<union> noiseWords s. wfWord w)
      \<and> (\<forall>k ws. completionsTable s k = Some ws \<longrightarrow>
            ws \<noteq> [] \<and> (\<forall>w \<in> set ws. wfWord w \<and> firstChar w = k)))"

text \<open>
  \<open>inEntry s w d\<close>: the document name \<open>d\<close> is a field of the inverted-index entry of the
  word \<open>w\<close>. \<open>reingested\<close> is the store after the document \<open>d\<close> was added with the
  content \<open>old\<close> and then again with the content \<open>new\<close>.
\<close>

definition inEntry :: "state \<Rightarrow> string \<Rightarrow> string \<Rightarrow> bool" where
  "inEntry s w d = (d \<in> fst ` set (fieldsOf (wordsTable s) w))"

definition reingested :: state where
  "reingested = snd (addContent ''d'' ''new'' (snd (addContent ''d'' ''old'' emptyState)))"

text \<open>
  The states the engine can be in: the empty store, and whatever \<open>create\<close> (attaching
  again), \<open>clear\<close>, \<open>addContent\<close> and \<open>addNoiseWords\<close> make of a state it can be in, the
  last two whether they succeed or fail. In such a state the fields of an index entry have
  distinct names, each the name of a stored document, a completion list has no duplicates,
  and the cache holds every persisted noise word.
\<close>

inductive reachable :: "state \<Rightarrow> bool" where
  reach_init: "reachable emptyState"
| reach_create: "reachable s \<Longrightarrow> reachable (create s)"
| reach_clear: "reachable s \<Longrightarrow> reachable (clear s)"
| reach_addContent: "reachable s \<Longrightarrow> reachable (snd (addContent name text s))"
| reach_addNoiseWords: "reachable s \<Longrightarrow> reachable (snd (addNoiseWords text s))"

text \<open>
  The states the engine reaches when every document is added under a plain name: the ones
  whose \<open>words\<close> collection the model describes.
\<close>

inductive reachablePlain :: "state \<Rightarrow> bool" where
  plain_init: "reachablePlain emptyState"
| plain_create: "reachablePlain s \<Longrightarrow> reachablePlain (create s)"
| plain_clear: "reachablePlain s \<Longrightarrow> reachablePlain (clear s)"
| plain_addContent:
    "reachablePlain s \<Longrightarrow> plainName name \<Longrightarrow> reachablePlain (snd (addContent name text s))"
| plain_addNoiseWords: "reachablePlain s \<Longrightarrow> reachablePlain (snd (addNoiseWords text s))"

definition consistent :: "state \<Rightarrow> bool" where
  "consistent s =
     ((\<forall>w fs. wordsTable s w = Some fs \<longrightarrow>
         distinct (map fst fs) \<and> (\<forall>d \<in> fst ` set fs. contentsTable s d \<noteq> None))
      \<and> (\<forall>k ws. completionsTable s k = Some ws \<longrightarrow> distinct ws)
      \<and> noiseTable s \<subseteq> noiseWords s)"

text \<open>The final whitespace-delimited token of a text: its longest suffix free of whitespace.\<close>

definition finalToken :: "string \<Rightarrow> string" where
  "finalToken text = rev (takeWhile (\<lambda>c. \<not> isSpace c) (rev text))"

text \<open>
  The count stored for a term and a document (0 when the entry does not list the document);
  the pairs stored for a document under the terms of a query, in term order; the order
  \<open>compareResults\<close> sorts by; the code-unit lexicographic comparison of names, one
  instance of \<open>localeCompare\<close>; and two example stores.
\<close>

definition storedCount :: "state \<Rightarrow> string \<Rightarrow> string \<Rightarrow> nat" where
  "storedCount s t d =
     (case map_of (fieldsOf (wordsTable s) t) d of None \<Rightarrow> 0 | Some wordInfo \<Rightarrow> fst wordInfo)"

definition matchedInfos :: "state \<Rightarrow> string list \<Rightarrow> string \<Rightarrow> wordInfo list" where
  "matchedInfos s terms d =
     concat (map (\<lambda>t. case map_of (fieldsOf (wordsTable s) t) d of
                          None \<Rightarrow> [] | Some wordInfo \<Rightarrow> [wordInfo]) terms)"

definition resultOrder :: "(string \<Rightarrow> string \<Rightarrow> int) \<Rightarrow> result \<Rightarrow> result \<Rightarrow> bool" where
  "resultOrder cmp r1 r2 =
     (scoreOf r1 > scoreOf r2 \<or> (scoreOf r1 = scoreOf r2 \<and> cmp (nameOf r1) (nameOf r2) \<le> 0))"

definition lexCompare :: "string \<Rightarrow> string \<Rightarrow> int" where
  "lexCompare a b = (if a < b then - 1 else if a = b then 0 else 1)"

definition termEntries :: "state \<Rightarrow> string \<Rightarrow> (string \<times> wordInfo) list" where
  "termEntries s t = (case wordsTable s t of None \<Rightarrow> [] | Some termIndex \<Rightarrow> objectEntries termIndex)"

definition mkResult :: "state \<Rightarrow> string \<times> wordInfo list \<Rightarrow> result" where
  "mkResult s doc =
     toResult (OffsetResult (fst doc) (foldl (\<lambda>acc wordInfo. acc + fst wordInfo) 0 (snd doc))
                 (map snd (snd doc)))
       (the (contentsTable s (fst doc)))"

definition fruitStore :: state where
  "fruitStore =
     snd (addContent ''d2'' ''apple banana banana banana banana banana''
       (snd (addContent ''d1'' ''apple apple apple'' emptyState)))"

definition tiedStore :: state where
  "tiedStore = snd (addContent ''a'' ''pear'' (snd (addContent ''b'' ''pear'' emptyState)))"

text \<open>
  A raw token of a text: a maximal run of non-whitespace characters, given by its start
  offset. \<open>boundary\<close> holds of the positions at which the regex scan resumes: no token
  straddles them. \<open>theNoise\<close> is the empty store with the one noise word \<open>the\<close>.
\<close>

definition isToken :: "string \<Rightarrow> nat \<Rightarrow> string \<Rightarrow> bool" where
  "isToken content off tok =
     (tok \<noteq> [] \<and> (\<forall>c \<in> set tok. \<not> isSpace c)
      \<and> off + length tok \<le> length content
      \<and> take (length tok) (drop off content) = tok
      \<and> (off = 0 \<or> isSpace (content ! (off - 1)))
      \<and> (off + length tok = length content \<or> isSpace (content ! (off + length tok))))"

definition boundary :: "string \<Rightarrow> nat \<Rightarrow> bool" where
  "boundary content i = (i = 0 \<or> length content \<le> i \<or> isSpace (content ! i))"

definition theNoise :: state where
  "theNoise = snd (addNoiseWords ''the'' emptyState)"

text \<open>
  The store after the noise word \<open>the\<close> was added and the database then cleared:
  \<open>clear\<close> empties the collections and leaves the cached set as it is.
\<close>

definition clearedStore :: state where
  "clearedStore = clear (snd (addNoiseWords ''the'' emptyState))"

text \<open>
  The start of the line an offset lies on: the offset less the number of characters other
  than newline that immediately precede it. The line from a start: the characters up to the
  next newline, and that newline. \<open>alphaStore\<close> holds the one document of the excerpt
  example.
\<close>

definition lineStart :: "string \<Rightarrow> nat \<Rightarrow> nat" where
  "lineStart contents off =
     length (take off contents)
       - length (takeWhile (\<lambda>c. c \<noteq> CHR 0x0A) (rev (take off contents)))"

definition lineFrom :: "string \<Rightarrow> nat \<Rightarrow> string" where
  "lineFrom contents i = takeWhile (\<lambda>c. c \<noteq> CHR 0x0A) (drop i contents) @ [CHR 0x0A]"

definition alphaStore :: state where
  "alphaStore = snd (addContent ''d'' ''alpha beta\<newline>gamma alpha\<newline>'' emptyState)"

section \<open>Content retrieval\<close>

lemma endsWith_single: "endsWith s [c] \<longleftrightarrow> s \<noteq> [] \<and> last s = c"
proof (cases s rule: rev_cases)
  case Nil
  then show ?thesis by (simp add: endsWith_def)
next
  case (snoc ys y)
  then show ?thesis by (auto simp: endsWith_def suffix_def)
qed

lemma saveWords_contents: "contentsTable (snd (saveWords name index s)) = contentsTable s"
  by (induction name index s rule: saveWords.induct) (auto split: indexValue.splits)

lemma foldl_completionStep_contents:
  "contentsTable (foldl completionStep s es) = contentsTable s"
  by (induction es arbitrary: s) (auto simp: completionStep_def Let_def)

lemma updateCompletions_contents: "contentsTable (updateCompletions ws s) = contentsTable s"
  by (simp add: updateCompletions_def foldl_completionStep_contents)

lemma addContent_contents:
  "contentsTable (snd (addContent name text s))
     = (contentsTable s)(name \<mapsto> (if endsWith text [CHR 0x0A] then text else text @ [CHR 0x0A]))"
proof -
  let ?t = "if endsWith text [CHR 0x0A] then text else text @ [CHR 0x0A]"
  have "contentsTable (snd (addContent name text s)) = contentsTable (saveContents name ?t s)"
    unfolding addContent_def Let_def
    by (auto split: prod.splits sum.splits simp: updateCompletions_contents)
       (metis saveWords_contents snd_conv)+
  then show ?thesis by (simp add: saveContents_def)
qed

text \<open>
  C9: \<open>docContent\<close> of a name the contents collection does not hold fails with the code
  \<open>NOT_FOUND\<close> and the message \<open>doc NAME not found\<close>; of a name it holds, it returns the
  stored content. Either way the state is left as it was.
\<close>

theorem docContent_lookup:
  "(contentsTable s name = None \<longrightarrow>
      docContent name s = (Inl (NOT_FOUND (''doc '' @ name @ '' not found'')), s))
   \<and> (\<forall>contents. contentsTable s name = Some contents \<longrightarrow>
         docContent name s = (Inr contents, s))"
  by (simp add: docContent_def)

theorem docContent_lookup_witness:
  "contentsTable emptyState ''nope'' = None
   \<and> docContent ''nope'' emptyState = (Inl (NOT_FOUND ''doc nope not found''), emptyState)
   \<and> contentsTable (saveContents ''d'' ''x'' emptyState) ''d'' = Some ''x''
   \<and> docContent ''d'' (saveContents ''d'' ''x'' emptyState)
       = (Inr ''x'', saveContents ''d'' ''x'' emptyState)"
  using docContent_lookup [of emptyState "''nope''"]
    docContent_lookup [of "saveContents ''d'' ''x'' emptyState" "''d''"]
  by (simp add: emptyState_def saveContents_def)

text \<open>
  C5: after \<open>addContent name text\<close>, whatever the state before and whether or not the
  indexing that follows the save succeeds, \<open>docContent name\<close> returns \<open>text\<close> itself when it
  ends with a newline, and \<open>text\<close> followed by one newline otherwise.
\<close>

theorem docContent_after_addContent:
  "fst (docContent name (snd (addContent name text s)))
     = Inr (if text \<noteq> [] \<and> last text = CHR 0x0A then text else text @ [CHR 0x0A])"
  by (simp add: docContent_def addContent_contents endsWith_single)

theorem docContent_after_addContent_witness:
  "fst (docContent ''d'' (snd (addContent ''d'' ''ab'' emptyState))) = Inr ''ab\<newline>''
   \<and> fst (docContent ''d'' (snd (addContent ''d'' ''ab\<newline>'' emptyState))) = Inr ''ab\<newline>''"
  using docContent_after_addContent [of "''d''" "''ab''" emptyState]
    docContent_after_addContent [of "''d''" "''ab\<newline>''" emptyState]
  by simp

section \<open>Noise words are added once\<close>

declare wordsLoop.simps [simp del]

lemma wordsLoop_None:
  "execWordRegex content i = None \<Longrightarrow> wordsLoop noise content i = []"
  by (subst wordsLoop.simps) simp

lemma wordsLoop_Some:
  "execWordRegex content i = Some (m, j, k) \<Longrightarrow>
     wordsLoop noise content i =
       (if normalize m \<noteq> [] \<and> normalize m \<notin> noise then [(normalize m, j)] else [])
       @ wordsLoop noise content k"
  by (subst wordsLoop.simps) (simp add: Let_def)


lemma wordsLoop_induct [case_names step]:
  fixes P :: "string set \<Rightarrow> string \<Rightarrow> nat \<Rightarrow> bool"
  assumes "\<And>noise content i.
     (\<And>m j k. execWordRegex content i = Some (m, j, k) \<Longrightarrow> P noise content k) \<Longrightarrow> P noise content i"
  shows "P noise content i"
proof (induction noise content i rule: wordsLoop.induct)
  case (1 noise content i)
  show ?case
  proof (rule assms)
    fix m j k assume "execWordRegex content i = Some (m, j, k)"
    then show "P noise content k"
      by (rule "1.IH" [of "(m, j, k)" m "(j, k)" j k "normalize m"]) simp_all
  qed
qed

lemma wordsLoop_filter:
  "wordsLoop noise content i = filter (\<lambda>p. fst p \<notin> noise) (wordsLoop {} content i)"
proof (induction noise content i rule: wordsLoop_induct)
  case (step noise content i)
  show ?case
  proof (cases "execWordRegex content i")
    case None
    then show ?thesis by (simp add: wordsLoop_None)
  next
    case (Some a)
    obtain m j k where a: "a = (m, j, k)" by (cases a)
    with Some have e: "execWordRegex content i = Some (m, j, k)" by simp
    show ?thesis
      using step [OF e] by (simp add: wordsLoop_Some [OF e])
  qed
qed

lemma words_filter:
  "words text s = filter (\<lambda>w. w \<notin> noiseWords s) (normalizedWords text)"
  unfolding words_def wordsLow_def normalizedWords_def
  by (subst wordsLoop_filter) (simp add: filter_map comp_def)

lemma foldl_setAdd_set: "set (foldl setAdd acc xs) = set acc \<union> set xs"
  by (induction xs arbitrary: acc) (auto simp: setAdd_def)

lemma foldl_setAdd_distinct: "distinct acc \<Longrightarrow> distinct (foldl setAdd acc xs)"
  by (induction xs arbitrary: acc) (auto simp: setAdd_def)

lemma set_newSet [simp]: "set (newSet xs) = set xs"
  by (simp add: newSet_def foldl_setAdd_set)

lemma distinct_newSet [simp]: "distinct (newSet xs)"
  by (simp add: newSet_def foldl_setAdd_distinct)

lemma newSet_Nil [simp]: "newSet xs = [] \<longleftrightarrow> xs = []"
  by (metis set_newSet set_empty)

lemma insertMany_mono: "insertMany ds table = (r, t) \<Longrightarrow> table \<subseteq> t"
  by (induction ds arbitrary: table) (auto split: if_splits)

lemma insertMany_fail:
  "insertMany ds table = (Inl e, t) \<Longrightarrow> insertMany ds t = (Inl e, t)"
proof (cases ds)
  case Nil
  assume "insertMany ds table = (Inl e, t)"
  with Nil show ?thesis by simp
next
  case (Cons d ds')
  assume a: "insertMany ds table = (Inl e, t)"
  show ?thesis
  proof (cases "d \<in> table")
    case True
    with a Cons show ?thesis by simp
  next
    case False
    with a Cons have b: "insertMany ds' (insert d table) = (Inl e, t)" by simp
    from insertMany_mono [OF b] have "d \<in> t" by auto
    moreover have "e = MongoError"
      using b by (induction ds' arbitrary: table d) (auto split: if_splits)
    ultimately show ?thesis using Cons by simp
  qed
qed

lemma insertMany_ok:
  "distinct ds \<Longrightarrow> set ds \<inter> table = {} \<Longrightarrow> insertMany ds table = (Inr (), table \<union> set ds)"
  by (induction ds arbitrary: table) auto

lemma insertMany_result:
  "insertMany ds table = (Inr u, t) \<Longrightarrow> t = table \<union> set ds"
  by (induction ds arbitrary: table) (auto split: if_splits)

lemma addNoiseWords_idem:
  "snd (addNoiseWords text (snd (addNoiseWords text s))) = snd (addNoiseWords text s)"
proof -
  let ?noise = "filter (\<lambda>n. n \<notin> noiseWords s) (newSet (words text s))"
  show ?thesis
  proof (cases "?noise = []")
    case True
    then show ?thesis by (simp add: addNoiseWords_def Let_def)
  next
    case False
    obtain r t where im: "insertMany ?noise (noiseTable s) = (r, t)" by force
    show ?thesis
    proof (cases r)
      case (Inl e)
      let ?s' = "s\<lparr>noiseTable := t\<rparr>"
      have s': "addNoiseWords text s = (Inl e, ?s')"
        using False im Inl by (simp add: addNoiseWords_def Let_def)
      have w: "words text ?s' = words text s" by (simp add: words_def wordsLow_def)
      have "insertMany ?noise t = (Inl e, t)" using im Inl insertMany_fail by simp
      then have "addNoiseWords text ?s' = (Inl e, ?s')"
        using False w by (simp add: addNoiseWords_def Let_def)
      with s' show ?thesis by simp
    next
      case (Inr u)
      let ?s' = "s\<lparr>noiseTable := t, noiseWords := noiseWords s \<union> set ?noise\<rparr>"
      have s': "addNoiseWords text s = (Inr (), ?s')"
        using False im Inr by (simp add: addNoiseWords_def Let_def)
      have "words text ?s' = []"
        by (auto simp: words_filter filter_empty_conv)
      then have "addNoiseWords text ?s' = (Inr (), ?s')"
        by (simp add: addNoiseWords_def Let_def newSet_def)
      with s' show ?thesis by simp
    qed
  qed
qed

lemma addNoiseWords_ok_members:
  assumes "fst (addNoiseWords text s) = Inr ()"
  shows "set (normalizedWords text) \<subseteq> noiseWords (snd (addNoiseWords text s))"
proof -
  let ?noise = "filter (\<lambda>n. n \<notin> noiseWords s) (newSet (words text s))"
  show ?thesis
  proof (cases "?noise = []")
    case True
    then have "snd (addNoiseWords text s) = s" by (simp add: addNoiseWords_def Let_def)
    moreover have "set (normalizedWords text) \<subseteq> noiseWords s"
      using True by (auto simp: words_filter filter_empty_conv)
    ultimately show ?thesis by simp
  next
    case False
    obtain r t where im: "insertMany ?noise (noiseTable s) = (r, t)" by force
    with assms False obtain u where "r = Inr u"
      by (cases r) (auto simp: addNoiseWords_def Let_def)
    with im False have "noiseWords (snd (addNoiseWords text s)) = noiseWords s \<union> set ?noise"
      by (simp add: addNoiseWords_def Let_def)
    then show ?thesis by (auto simp: words_filter)
  qed
qed

lemma addNoiseWords_succeeds:
  assumes "noiseTable s \<subseteq> noiseWords s"
  shows "fst (addNoiseWords text s) = Inr ()"
    and "noiseTable (snd (addNoiseWords text s)) \<subseteq> noiseWords (snd (addNoiseWords text s))"
    and "noiseTable s = noiseWords s \<Longrightarrow>
           noiseTable (snd (addNoiseWords text s)) = noiseWords (snd (addNoiseWords text s))"
proof -
  let ?noise = "filter (\<lambda>n. n \<notin> noiseWords s) (newSet (words text s))"
  have "distinct ?noise" by simp
  moreover have "set ?noise \<inter> noiseTable s = {}" using assms by auto
  ultimately have im: "insertMany ?noise (noiseTable s) = (Inr (), noiseTable s \<union> set ?noise)"
    by (rule insertMany_ok)
  show "fst (addNoiseWords text s) = Inr ()"
    using im by (simp add: addNoiseWords_def Let_def)
  show "noiseTable (snd (addNoiseWords text s)) \<subseteq> noiseWords (snd (addNoiseWords text s))"
    using im assms by (auto simp: addNoiseWords_def Let_def)
  show "noiseTable (snd (addNoiseWords text s)) = noiseWords (snd (addNoiseWords text s))"
    if "noiseTable s = noiseWords s"
    using im that by (auto simp: addNoiseWords_def Let_def)
qed

section \<open>Sets and maps in insertion order\<close>

lemma foldl_setAdd_subset: "set xs \<subseteq> set acc \<Longrightarrow> foldl setAdd acc xs = acc"
  by (induction xs arbitrary: acc) (auto simp: setAdd_def)

lemma foldl_setAdd_fresh:
  "distinct xs \<Longrightarrow> set xs \<inter> set acc = {} \<Longrightarrow> foldl setAdd acc xs = acc @ xs"
  by (induction xs arbitrary: acc) (auto simp: setAdd_def)

lemma foldl_setAdd_split:
  "\<exists>ys. foldl setAdd acc xs = acc @ ys \<and> distinct ys \<and> set ys \<inter> set acc = {}"
proof (induction xs arbitrary: acc)
  case Nil
  then show ?case by simp
next
  case (Cons x xs)
  obtain ys where ys: "foldl setAdd (setAdd acc x) xs = setAdd acc x @ ys"
    "distinct ys" "set ys \<inter> set (setAdd acc x) = {}"
    using Cons.IH by blast
  show ?case
  proof (cases "x \<in> set acc")
    case True
    then have "setAdd acc x = acc" by (simp add: setAdd_def)
    with ys have "foldl setAdd acc (x # xs) = acc @ ys \<and> distinct ys \<and> set ys \<inter> set acc = {}"
      by simp
    then show ?thesis by (rule exI)
  next
    case False
    then have "setAdd acc x = acc @ [x]" by (simp add: setAdd_def)
    with ys have "foldl setAdd acc (x # xs) = acc @ (x # ys) \<and> distinct (x # ys)
      \<and> set (x # ys) \<inter> set acc = {}"
      using False by auto
    then show ?thesis by (rule exI)
  qed
qed

lemma foldl_setAdd_again: "foldl setAdd acc (foldl setAdd acc xs) = foldl setAdd acc xs"
proof -
  from foldl_setAdd_split [of acc xs]
  obtain ys where ys: "foldl setAdd acc xs = acc @ ys" and d: "distinct ys"
    and i: "set ys \<inter> set acc = {}"
    by (elim exE conjE)
  have a: "foldl setAdd acc acc = acc" by (rule foldl_setAdd_subset) (rule subset_refl)
  have b: "foldl setAdd acc ys = acc @ ys" using d i by (rule foldl_setAdd_fresh)
  have "foldl setAdd acc (acc @ ys) = foldl setAdd (foldl setAdd acc acc) ys"
    by (rule foldl_append)
  then have "foldl setAdd acc (acc @ ys) = acc @ ys" unfolding a b .
  then show ?thesis unfolding ys .
qed

lemma newSet_absorb: "newSet (xs @ newSet (xs @ ys)) = newSet (xs @ ys)"
proof -
  have "newSet (xs @ newSet (xs @ ys))
      = foldl setAdd (newSet xs) (foldl setAdd (newSet xs) ys)"
    unfolding newSet_def foldl_append ..
  also have "\<dots> = foldl setAdd (newSet xs) ys" by (rule foldl_setAdd_again)
  also have "\<dots> = newSet (xs @ ys)" unfolding newSet_def foldl_append ..
  finally show ?thesis .
qed

lemma setField_keys: "fst ` set (setField k v fs) = insert k (fst ` set fs)"
  by (induction k v fs rule: setField.induct) auto

lemma setField_distinct: "distinct (map fst fs) \<Longrightarrow> distinct (map fst (setField k v fs))"
  by (induction k v fs rule: setField.induct) (auto simp: setField_keys)

lemma setField_again: "setField k v (setField k v fs) = setField k v fs"
  by (induction k v fs rule: setField.induct) auto

lemma map_of_setField: "map_of (setField k v fs) = (map_of fs)(k \<mapsto> v)"
  by (induction k v fs rule: setField.induct) auto

lemma mapPush_keys: "fst ` set (mapPush k v m) = insert k (fst ` set m)"
  by (induction k v m rule: mapPush.induct) auto

lemma mapPush_distinct: "distinct (map fst m) \<Longrightarrow> distinct (map fst (mapPush k v m))"
  by (induction k v m rule: mapPush.induct) (auto simp: mapPush_keys)

section \<open>What ingestion writes\<close>

lemma saveWords_eq:
  "saveWords name index s =
     (if savedOk index then Inr () else Inl MongoError,
      s\<lparr>wordsTable := savedTable name index (wordsTable s)\<rparr>)"
  by (induction name index s rule: saveWords.induct)
     (auto simp: savedOk_def split: indexValue.splits)

lemma okPrefix_keys: "fst ` set (okPrefix index) \<subseteq> fst ` set index"
  unfolding okPrefix_def by (meson image_mono set_takeWhileD subsetI)

lemma savedTable_lookup:
  "distinct (map fst index) \<Longrightarrow>
   savedTable name index table w =
     (case map_of (okPrefix index) w of
        Some (WordInfo c off) \<Rightarrow> Some (setField name (c, off) (fieldsOf table w))
      | _ \<Rightarrow> table w)"
proof (induction index arbitrary: table)
  case Nil
  then show ?case by (simp add: okPrefix_def)
next
  case (Cons e index)
  obtain word v where e: "e = (word, v)" by (cases e)
  show ?case
  proof (cases v)
    case ObjectConstructor
    then show ?thesis using e by (simp add: okPrefix_def)
  next
    case (WordInfo c off)
    have d: "distinct (map fst index)" and nin: "word \<notin> fst ` set index"
      using Cons.prems e by auto
    have none: "map_of (okPrefix index) word = None"
      using nin okPrefix_keys [of index] by (auto simp: map_of_eq_None_iff)
    have pre: "okPrefix (e # index) = e # okPrefix index"
      using e WordInfo by (simp add: okPrefix_def)
    let ?t = "updateOneSet table word name (c, off)"
    have step: "savedTable name (e # index) table w = savedTable name index ?t w"
      using e WordInfo by simp
    show ?thesis
    proof (cases "w = word")
      case True
      have "savedTable name index ?t word = ?t word"
        using Cons.IH [OF d, of ?t] none True by simp
      then show ?thesis
        using step True pre e WordInfo by (simp add: updateOneSet_def fieldsOf_def)
    next
      case False
      then have "?t w = table w" "fieldsOf ?t w = fieldsOf table w"
        by (simp_all add: updateOneSet_def fieldsOf_def)
      then show ?thesis
        using step False pre e Cons.IH [OF d, of ?t]
        by (simp split: option.splits indexValue.splits)
    qed
  qed
qed

lemma savedTable_again:
  assumes "distinct (map fst index)"
  shows "savedTable name index (savedTable name index table) = savedTable name index table"
proof
  fix w
  show "savedTable name index (savedTable name index table) w = savedTable name index table w"
    by (simp add: savedTable_lookup [OF assms] fieldsOf_def setField_again
        split: option.splits indexValue.splits)
qed



lemma foldl_indexStep_distinct:
  "distinct (map fst index) \<Longrightarrow> distinct (map fst (foldl indexStep index ps))"
  by (induction ps arbitrary: index) (simp_all add: indexStep_def Let_def setField_distinct)

lemma makeIndex_distinct: "distinct (map fst (makeIndex text s))"
  by (simp add: makeIndex_def foldl_indexStep_distinct)

lemma makeIndex_cong: "noiseWords s' = noiseWords s \<Longrightarrow> makeIndex text s' = makeIndex text s"
  by (simp add: makeIndex_def wordsLow_def)

lemma foldl_mapPush_distinct:
  "distinct (map fst m) \<Longrightarrow>
   distinct (map fst (foldl (\<lambda>completions word. mapPush (firstChar word) word completions) m ws))"
  by (induction ws arbitrary: m) (simp_all add: mapPush_distinct)

lemma makeCompletions_distinct: "distinct (map fst (makeCompletions ws))"
  by (simp add: makeCompletions_def foldl_mapPush_distinct)

lemma completedTable_Cons:
  assumes "map_of completions c = None"
  shows "completedTable completions (table(c \<mapsto> newSet (cs @ fieldsOf table c)))
           = completedTable ((c, cs) # completions) table"
proof
  fix k
  show "completedTable completions (table(c \<mapsto> newSet (cs @ fieldsOf table c))) k
          = completedTable ((c, cs) # completions) table k"
    using assms
    by (cases "k = c") (simp_all add: completedTable_def fieldsOf_def split: option.splits)
qed

lemma foldl_completionStep_eq:
  "distinct (map fst completions) \<Longrightarrow>
   foldl completionStep s completions =
     s\<lparr>completionsTable := completedTable completions (completionsTable s)\<rparr>"
proof (induction completions arbitrary: s)
  case Nil
  then show ?case by (simp add: completedTable_def)
next
  case (Cons e completions)
  obtain c cs where e: "e = (c, cs)" by (cases e)
  have d: "distinct (map fst completions)" and nin: "c \<notin> fst ` set completions"
    using Cons.prems e by auto
  have none: "map_of completions c = None"
    using nin by (simp add: map_of_eq_None_iff)
  have step: "completionStep s (c, cs)
      = s\<lparr>completionsTable := (completionsTable s)(c \<mapsto> newSet (cs @ fieldsOf (completionsTable s) c))\<rparr>"
    by (simp add: completionStep_def Let_def fieldsOf_def)
  have "foldl completionStep s (e # completions)
      = foldl completionStep (completionStep s (c, cs)) completions"
    by (simp add: e)
  also have "\<dots> = (completionStep s (c, cs))
      \<lparr>completionsTable := completedTable completions (completionsTable (completionStep s (c, cs)))\<rparr>"
    by (rule Cons.IH [OF d])
  also have "\<dots> = s\<lparr>completionsTable := completedTable completions
      ((completionsTable s)(c \<mapsto> newSet (cs @ fieldsOf (completionsTable s) c)))\<rparr>"
    unfolding step by simp
  also have "\<dots> = s\<lparr>completionsTable := completedTable ((c, cs) # completions) (completionsTable s)\<rparr>"
    by (simp only: completedTable_Cons [OF none])
  finally show ?case by (simp only: e)
qed

lemma updateCompletions_eq:
  "updateCompletions ws s =
     s\<lparr>completionsTable := completedTable (makeCompletions ws) (completionsTable s)\<rparr>"
  by (simp add: updateCompletions_def foldl_completionStep_eq makeCompletions_distinct)

lemma completedTable_again:
  "completedTable completions (completedTable completions table) = completedTable completions table"
proof
  fix k
  show "completedTable completions (completedTable completions table) k
          = completedTable completions table k"
    by (cases "map_of completions k") (simp_all add: completedTable_def fieldsOf_def newSet_absorb)
qed


lemma addContent_eq:
  "addContent name text s =
     (if savedOk (addedIndex text s) then Inr () else Inl MongoError,
      s\<lparr>contentsTable := (contentsTable s)(name \<mapsto> withNewline text),
        wordsTable := savedTable name (addedIndex text s) (wordsTable s),
        completionsTable :=
          (if savedOk (addedIndex text s)
           then completedTable (makeCompletions (map fst (addedIndex text s))) (completionsTable s)
           else completionsTable s)\<rparr>)"
proof -
  have "makeIndex (withNewline text) (saveContents name (withNewline text) s)
      = makeIndex (withNewline text) s"
    by (rule makeIndex_cong) (simp add: saveContents_def)
  then show ?thesis
    by (simp add: addContent_def Let_def saveWords_eq updateCompletions_eq saveContents_def
        withNewline_def addedIndex_def)
qed

lemma addContent_noise:
  "noiseWords (snd (addContent name text s)) = noiseWords s"
  "noiseTable (snd (addContent name text s)) = noiseTable s"
  by (simp_all add: addContent_eq)

lemma addedIndex_after:
  "addedIndex text (snd (addContent name text' s)) = addedIndex text s"
  unfolding addedIndex_def by (rule makeIndex_cong) (rule addContent_noise)

text \<open>
  C2: a second \<open>addContent\<close> with the same name and text returns what the first returned
  and leaves the state the first left: the contents, the inverted index, the completions
  and the noise words are all equal, for every state, name and text.
\<close>

theorem addContent_idempotent:
  "addContent name text (snd (addContent name text s)) = addContent name text s"
proof -
  let ?s' = "snd (addContent name text s)"
  have i: "addedIndex text ?s' = addedIndex text s" by (rule addedIndex_after)
  have d: "distinct (map fst (addedIndex text s))"
    by (simp add: addedIndex_def makeIndex_distinct)
  show ?thesis
    unfolding addContent_eq [of name "text" ?s'] i
    by (simp add: addContent_eq [of name "text" s] savedTable_again [OF d] completedTable_again)
qed

section \<open>Words are well formed\<close>

lemma normalize_lower: "list_all isLowerAlpha (normalize m)"
  by (simp add: normalize_def list_all_iff)

lemma wordsLoop_wfWord:
  "p \<in> set (wordsLoop noise content i) \<Longrightarrow> wfWord (fst p) \<and> fst p \<notin> noise"
proof (induction noise content i rule: wordsLoop_induct)
  case (step noise content i)
  show ?case
  proof (cases "execWordRegex content i")
    case None
    with step.prems show ?thesis by (simp add: wordsLoop_None)
  next
    case (Some a)
    obtain m j k where a: "a = (m, j, k)" by (cases a)
    with Some have e: "execWordRegex content i = Some (m, j, k)" by simp
    from step.prems have
      "(normalize m \<noteq> [] \<and> normalize m \<notin> noise \<and> p = (normalize m, j))
        \<or> p \<in> set (wordsLoop noise content k)"
      by (auto simp: wordsLoop_Some [OF e] split: if_splits)
    then show ?thesis
      using step.IH [OF e] by (auto simp: wfWord_def normalize_lower)
  qed
qed

lemma words_wfWord: "w \<in> set (words text s) \<Longrightarrow> wfWord w \<and> w \<notin> noiseWords s"
  unfolding words_def wordsLow_def using wordsLoop_wfWord by fastforce

lemma foldl_indexStep_keys:
  "fst ` set (foldl indexStep index ps) = fst ` set index \<union> fst ` set ps"
  by (induction ps arbitrary: index) (auto simp: indexStep_def Let_def setField_keys)

lemma makeIndex_keys: "fst ` set (makeIndex text s) = set (words text s)"
  by (simp add: makeIndex_def foldl_indexStep_keys words_def)

lemma addedIndex_keys: "fst ` set (addedIndex text s) = set (words (withNewline text) s)"
  by (simp add: addedIndex_def makeIndex_keys)

lemma savedTable_dom:
  assumes "distinct (map fst index)" and "savedTable name index table w \<noteq> None"
  shows "table w \<noteq> None \<or> w \<in> fst ` set index"
proof (cases "map_of (okPrefix index) w")
  case None
  with assms show ?thesis by (simp add: savedTable_lookup)
next
  case (Some v)
  then have "w \<in> fst ` set (okPrefix index)" by (metis map_of_eq_None_iff option.distinct(1))
  with okPrefix_keys show ?thesis by blast
qed

section \<open>Grouping by key\<close>

lemma map_of_mapPush:
  "map_of (mapPush k v m) k' =
     (if k' = k then Some (fieldsOf (map_of m) k @ [v]) else map_of m k')"
  by (induction k v m rule: mapPush.induct) (auto simp: fieldsOf_def)

lemma map_of_foldl_mapPush:
  "map_of (foldl (\<lambda>m x. mapPush (kf x) (vf x) m) m xs) k =
     (if filter (\<lambda>x. kf x = k) xs = [] then map_of m k
      else Some (fieldsOf (map_of m) k @ map vf (filter (\<lambda>x. kf x = k) xs)))"
proof (induction xs arbitrary: m)
  case Nil
  then show ?case by simp
next
  case (Cons x xs)
  show ?case
    by (simp add: Cons.IH map_of_mapPush fieldsOf_def)
qed

lemma map_of_makeCompletions:
  "map_of (makeCompletions ws) k =
     (if filter (\<lambda>w. firstChar w = k) ws = [] then None
      else Some (filter (\<lambda>w. firstChar w = k) ws))"
  unfolding makeCompletions_def
  using map_of_foldl_mapPush [of firstChar "\<lambda>w. w" "[]" ws k]
  by (simp add: fieldsOf_def)

lemma completedTable_Some:
  assumes "completedTable (makeCompletions ws) table k = Some l"
  shows "table k = Some l
         \<or> (filter (\<lambda>w. firstChar w = k) ws \<noteq> []
            \<and> l = newSet (filter (\<lambda>w. firstChar w = k) ws @ fieldsOf table k))"
  using assms
  by (auto simp: completedTable_def map_of_makeCompletions split: option.splits if_splits)

section \<open>Well-formedness is invariant\<close>

lemma wellFormed_emptyState: "wellFormed emptyState"
  by (simp add: wellFormed_def emptyState_def)

lemma wellFormed_clear: "wellFormed s \<Longrightarrow> wellFormed (clear s)"
  by (simp add: wellFormed_def clear_def)

lemma wellFormed_create: "wellFormed s \<Longrightarrow> wellFormed (create s)"
  by (simp add: wellFormed_def create_def)

lemma insertMany_subset: "insertMany ds table = (r, t) \<Longrightarrow> t \<subseteq> table \<union> set ds"
  by (induction ds arbitrary: table) (auto split: if_splits)

lemma addNoiseWords_frame:
  "wordsTable (snd (addNoiseWords text s)) = wordsTable s"
  "completionsTable (snd (addNoiseWords text s)) = completionsTable s"
  "contentsTable (snd (addNoiseWords text s)) = contentsTable s"
  by (simp_all add: addNoiseWords_def Let_def split: prod.splits sum.splits)

lemma addNoiseWords_noise:
  "noiseTable (snd (addNoiseWords text s)) \<subseteq> noiseTable s \<union> set (words text s)"
  "noiseWords (snd (addNoiseWords text s)) \<subseteq> noiseWords s \<union> set (words text s)"
proof -
  let ?noise = "filter (\<lambda>n. n \<notin> noiseWords s) (newSet (words text s))"
  obtain r t where im: "insertMany ?noise (noiseTable s) = (r, t)" by force
  from insertMany_subset [OF im] have t: "t \<subseteq> noiseTable s \<union> set (words text s)" by auto
  show "noiseTable (snd (addNoiseWords text s)) \<subseteq> noiseTable s \<union> set (words text s)"
    using im t by (cases r) (auto simp: addNoiseWords_def Let_def)
  show "noiseWords (snd (addNoiseWords text s)) \<subseteq> noiseWords s \<union> set (words text s)"
    using im by (cases r) (auto simp: addNoiseWords_def Let_def)
qed

lemma wellFormed_addNoiseWords:
  assumes "wellFormed s"
  shows "wellFormed (snd (addNoiseWords text s))"
proof -
  have "wfWord w" if "w \<in> noiseTable (snd (addNoiseWords text s))
      \<union> noiseWords (snd (addNoiseWords text s))" for w
  proof -
    from that addNoiseWords_noise [of "text" s]
    have "w \<in> noiseTable s \<union> noiseWords s \<or> w \<in> set (words text s)" by blast
    then show ?thesis using assms words_wfWord by (auto simp: wellFormed_def)
  qed
  then show ?thesis
    using assms unfolding wellFormed_def addNoiseWords_frame by blast
qed

lemma wellFormed_addContent:
  assumes "wellFormed s"
  shows "wellFormed (snd (addContent name text s))"
proof -
  let ?index = "addedIndex text s"
  let ?s' = "snd (addContent name text s)"
  have d: "distinct (map fst ?index)" by (simp add: addedIndex_def makeIndex_distinct)
  have keys: "wfWord w" if "w \<in> fst ` set ?index" for w
    using that words_wfWord by (simp add: addedIndex_keys)
  have w: "wfWord w" if "wordsTable ?s' w \<noteq> None" for w
  proof -
    from that have "savedTable name ?index (wordsTable s) w \<noteq> None"
      by (simp add: addContent_eq)
    from savedTable_dom [OF d this] show ?thesis
      using assms keys by (auto simp: wellFormed_def)
  qed
  have c: "ws \<noteq> [] \<and> (\<forall>w \<in> set ws. wfWord w \<and> firstChar w = k)"
    if "completionsTable ?s' k = Some ws" for k ws
  proof -
    let ?cs = "filter (\<lambda>w. firstChar w = k) (map fst ?index)"
    from that have "completionsTable s k = Some ws
        \<or> completedTable (makeCompletions (map fst ?index)) (completionsTable s) k = Some ws"
      by (simp add: addContent_eq split: if_splits)
    then have "completionsTable s k = Some ws
        \<or> (?cs \<noteq> [] \<and> ws = newSet (?cs @ fieldsOf (completionsTable s) k))"
      using completedTable_Some by blast
    then show ?thesis
    proof
      assume "completionsTable s k = Some ws"
      with assms show ?thesis by (simp add: wellFormed_def)
    next
      assume n: "?cs \<noteq> [] \<and> ws = newSet (?cs @ fieldsOf (completionsTable s) k)"
      have old: "wfWord w \<and> firstChar w = k" if "w \<in> set (fieldsOf (completionsTable s) k)" for w
      proof (cases "completionsTable s k")
        case None
        with that show ?thesis by (simp add: fieldsOf_def)
      next
        case (Some l)
        with that have "w \<in> set l" by (simp add: fieldsOf_def)
        with Some assms show ?thesis unfolding wellFormed_def by blast
      qed
      have new: "wfWord w \<and> firstChar w = k" if "w \<in> set ?cs" for w
        using that keys by auto
      from n have "ws \<noteq> []" by simp
      moreover have "set ws = set ?cs \<union> set (fieldsOf (completionsTable s) k)"
        using n by simp
      then have "\<forall>w \<in> set ws. wfWord w \<and> firstChar w = k"
        using old new by blast
      ultimately show ?thesis by simp
    qed
  qed
  have n: "\<forall>w \<in> noiseTable ?s' \<union> noiseWords ?s'. wfWord w"
    using assms by (simp add: addContent_noise wellFormed_def)
  show ?thesis
    unfolding wellFormed_def using w c n by blast
qed

text \<open>
  C10: the empty store is well formed, and from a well-formed state \<open>addContent\<close> and
  \<open>addNoiseWords\<close> (with any arguments, whether they succeed or fail) lead to a well-formed
  state, as do \<open>clear\<close> and re-attaching with \<open>create\<close>.
\<close>

theorem wellFormed_preserved:
  "wellFormed emptyState
   \<and> (wellFormed s \<longrightarrow>
        wellFormed (snd (addContent name text s)) \<and> wellFormed (snd (addNoiseWords text s))
        \<and> wellFormed (clear s) \<and> wellFormed (create s))"
  using wellFormed_emptyState wellFormed_addContent wellFormed_addNoiseWords wellFormed_clear
    wellFormed_create
  by blast

theorem wellFormed_preserved_witness:
  "wellFormed emptyState
   \<and> wellFormed (snd (addContent ''d'' ''Tom's cat'' emptyState))
   \<and> wellFormed (snd (addNoiseWords ''Tom's cat'' emptyState))
   \<and> wellFormed (clear emptyState) \<and> wellFormed (create emptyState)"
  using wellFormed_preserved [of emptyState "''d''" "''Tom's cat''"]
  by simp

section \<open>The inverted index only grows\<close>

lemma okPrefix_all: "savedOk index \<Longrightarrow> okPrefix index = index"
  by (simp add: savedOk_def okPrefix_def list_all_iff)

lemma okPrefix_values:
  "map_of (okPrefix index) w = Some v \<Longrightarrow> v \<noteq> ObjectConstructor \<and> w \<in> fst ` set index"
proof -
  assume a: "map_of (okPrefix index) w = Some v"
  then have m: "(w, v) \<in> set (okPrefix index)" by (rule map_of_SomeD)
  then have "snd (w, v) \<noteq> ObjectConstructor"
    unfolding okPrefix_def by (rule set_takeWhileD [THEN conjunct2])
  moreover have "w \<in> fst ` set index"
    using m okPrefix_keys [of index] by force
  ultimately show ?thesis by simp
qed

lemma savedTable_fields:
  assumes "distinct (map fst index)"
  shows "fst ` set (fieldsOf (savedTable name index table) w) =
           (if map_of (okPrefix index) w = None then fst ` set (fieldsOf table w)
            else insert name (fst ` set (fieldsOf table w)))"
proof (cases "map_of (okPrefix index) w")
  case None
  then show ?thesis by (simp add: fieldsOf_def savedTable_lookup [OF assms])
next
  case (Some v)
  with okPrefix_values obtain c off where "v = WordInfo c off" by (cases v) auto
  with Some show ?thesis
    by (simp add: fieldsOf_def savedTable_lookup [OF assms] setField_keys)
qed

lemma inEntry_addContent:
  "inEntry (snd (addContent name text s)) w d \<longleftrightarrow>
     inEntry s w d \<or> (d = name \<and> map_of (okPrefix (addedIndex text s)) w \<noteq> None)"
proof -
  have d: "distinct (map fst (addedIndex text s))" by (simp add: addedIndex_def makeIndex_distinct)
  show ?thesis
    unfolding inEntry_def by (auto simp: addContent_eq savedTable_fields [OF d])
qed

lemma addContent_ok: "fst (addContent name text s) = Inr () \<longleftrightarrow> savedOk (addedIndex text s)"
  by (simp add: addContent_eq)

text \<open>
  C1, as the code has it, for a document added under a plain name: \<open>addContent name text\<close>
  never removes a document from an entry.
  After the call a document is in the entry of a word only if it was there before, or it is
  \<open>name\<close> and the word is a non-noise normalized word of the saved text; every document
  that was in an entry stays there; and when the call completes, \<open>name\<close> is in the entry of
  every non-noise normalized word of the saved text. So a word that occurred only in an
  earlier content of the document keeps the document in its entry.
\<close>

theorem inEntry_after_addContent:
  assumes "plainName name"
  shows "(inEntry (snd (addContent name text s)) w d \<longrightarrow>
      inEntry s w d \<or> (d = name \<and> w \<in> set (words (withNewline text) s)))
   \<and> (inEntry s w d \<longrightarrow> inEntry (snd (addContent name text s)) w d)
   \<and> (fst (addContent name text s) = Inr () \<and> w \<in> set (words (withNewline text) s) \<longrightarrow>
        inEntry (snd (addContent name text s)) w name)"
proof -
  have a: "w \<in> set (words (withNewline text) s)"
    if "map_of (okPrefix (addedIndex text s)) w \<noteq> None"
    using that okPrefix_values [of "addedIndex text s" w] by (auto simp: addedIndex_keys)
  have b: "map_of (okPrefix (addedIndex text s)) w \<noteq> None"
    if "fst (addContent name text s) = Inr ()" and "w \<in> set (words (withNewline text) s)"
  proof -
    from that(1) have "okPrefix (addedIndex text s) = addedIndex text s"
      by (simp add: addContent_ok okPrefix_all)
    moreover from that(2) have "w \<in> fst ` set (addedIndex text s)" by (simp add: addedIndex_keys)
    ultimately show ?thesis by (simp add: map_of_eq_None_iff)
  qed
  show ?thesis using a b by (auto simp: inEntry_addContent)
qed

lemma setField_set: "set (setField k v fs) \<subseteq> insert (k, v) (set fs)"
  by (induction k v fs rule: setField.induct) auto

lemma indexStep_constructor:
  assumes "\<forall>e \<in> set index. snd e = ObjectConstructor \<longleftrightarrow> fst e = ''constructor''"
  shows "\<forall>e \<in> set (indexStep index p). snd e = ObjectConstructor \<longleftrightarrow> fst e = ''constructor''"
proof -
  obtain word offset where p: "p = (word, offset)" by (cases p)
  let ?wordInfo = "case indexGet index word of Some v \<Rightarrow> v | None \<Rightarrow> WordInfo 0 offset"
  let ?wordInfo' = "case ?wordInfo of WordInfo c off \<Rightarrow> WordInfo (c + 1) off
                    | ObjectConstructor \<Rightarrow> ObjectConstructor"
  have "?wordInfo = ObjectConstructor \<longleftrightarrow> word = ''constructor''"
  proof (cases "map_of index word")
    case None
    then show ?thesis by (simp add: indexGet_def)
  next
    case (Some v)
    then have "(word, v) \<in> set index" by (rule map_of_SomeD)
    with assms have "v = ObjectConstructor \<longleftrightarrow> word = ''constructor''" by fastforce
    with Some show ?thesis by (simp add: indexGet_def)
  qed
  then have v: "?wordInfo' = ObjectConstructor \<longleftrightarrow> word = ''constructor''"
    by (cases ?wordInfo) simp_all
  have "indexStep index p = setField word ?wordInfo' index"
    by (simp add: indexStep_def Let_def p)
  then have "set (indexStep index p) \<subseteq> insert (word, ?wordInfo') (set index)"
    using setField_set by metis
  then show ?thesis using assms v by fastforce
qed

lemma foldl_indexStep_constructor:
  "\<forall>e \<in> set index. snd e = ObjectConstructor \<longleftrightarrow> fst e = ''constructor'' \<Longrightarrow>
   \<forall>e \<in> set (foldl indexStep index ps). snd e = ObjectConstructor \<longleftrightarrow> fst e = ''constructor''"
proof (induction ps arbitrary: index)
  case Nil
  then show ?case by simp
next
  case (Cons p ps)
  from Cons.IH [OF indexStep_constructor [OF Cons.prems]] show ?case by simp
qed

lemma savedOk_makeIndex: "savedOk (makeIndex text s) \<longleftrightarrow> ''constructor'' \<notin> set (words text s)"
proof -
  have inv: "\<forall>e \<in> set (makeIndex text s). snd e = ObjectConstructor \<longleftrightarrow> fst e = ''constructor''"
    unfolding makeIndex_def by (rule foldl_indexStep_constructor) simp
  have "savedOk (makeIndex text s) \<longleftrightarrow> ''constructor'' \<notin> fst ` set (makeIndex text s)"
    unfolding savedOk_def list_all_iff using inv by force
  then show ?thesis by (simp add: makeIndex_keys)
qed

lemma addContent_succeeds:
  "fst (addContent name text s) = Inr () \<longleftrightarrow> ''constructor'' \<notin> set (words (withNewline text) s)"
  by (simp add: addContent_ok addedIndex_def savedOk_makeIndex)

lemma reingested_example:
  "contentsTable reingested ''d'' = Some ''new\<newline>''
   \<and> words ''new\<newline>'' reingested = [''new'']
   \<and> wordsTable reingested ''old'' = Some [(''d'', (1, 0))]"
  unfolding reingested_def by code_simp

text \<open>
  The entry of \<open>old\<close> still lists \<open>d\<close> after \<open>d\<close> was added again with a content in which
  \<open>old\<close> does not occur.
\<close>

theorem stale_entry_counterexample:
  "contentsTable reingested ''d'' = Some ''new\<newline>''
   \<and> ''old'' \<notin> set (words ''new\<newline>'' reingested)
   \<and> inEntry reingested ''old'' ''d''"
  using reingested_example by (simp add: inEntry_def fieldsOf_def)

lemma words_old_new:
  "words (withNewline ''old'') emptyState = [''old'']"
  "fst (addContent ''d'' ''new'' (snd (addContent ''d'' ''old'' emptyState))) = Inr ()"
  "words (withNewline ''new'') (snd (addContent ''d'' ''old'' emptyState)) = [''new'']"
  "fst (addContent ''d'' ''old'' emptyState) = Inr ()"
  by code_simp+

theorem inEntry_after_addContent_witness:
  "plainName ''d''
   \<and> inEntry (snd (addContent ''d'' ''old'' emptyState)) ''old'' ''d''
   \<and> inEntry reingested ''old'' ''d''
   \<and> inEntry reingested ''new'' ''d''
   \<and> \<not> inEntry reingested ''other'' ''d''"
proof -
  let ?s1 = "snd (addContent ''d'' ''old'' emptyState)"
  have p: "plainName ''d''" by (simp add: plainName_def)
  have e: "\<not> inEntry emptyState w d" for w d
    by (simp add: inEntry_def fieldsOf_def emptyState_def)
  have 1: "inEntry ?s1 ''old'' ''d''"
    using inEntry_after_addContent [OF p, of "''old''" emptyState "''old''" "''d''"] words_old_new
    by simp
  have 2: "inEntry reingested ''old'' ''d''"
    using inEntry_after_addContent [OF p, of "''new''" ?s1 "''old''" "''d''"] 1
    by (simp add: reingested_def)
  have 3: "inEntry reingested ''new'' ''d''"
    using inEntry_after_addContent [OF p, of "''new''" ?s1 "''new''" "''d''"] words_old_new
    by (simp add: reingested_def)
  have "\<not> inEntry ?s1 ''other'' ''d''"
    using inEntry_after_addContent [OF p, of "''old''" emptyState "''other''" "''d''"] words_old_new e
    by auto
  then have 4: "\<not> inEntry reingested ''other'' ''d''"
    using inEntry_after_addContent [OF p, of "''new''" ?s1 "''other''" "''d''"] words_old_new
    by (auto simp: reingested_def)
  show ?thesis using p 1 2 3 4 by simp
qed

section \<open>Reachable states are consistent\<close>

lemma consistent_emptyState: "consistent emptyState"
  by (simp add: consistent_def emptyState_def)

lemma consistent_clear: "consistent s \<Longrightarrow> consistent (clear s)"
  by (simp add: consistent_def clear_def)

lemma consistent_create: "consistent s \<Longrightarrow> consistent (create s)"
  by (simp add: consistent_def create_def)

lemma consistent_addNoiseWords:
  assumes "consistent s"
  shows "consistent (snd (addNoiseWords text s))"
proof -
  from assms have "noiseTable s \<subseteq> noiseWords s" by (simp add: consistent_def)
  then have "noiseTable (snd (addNoiseWords text s)) \<subseteq> noiseWords (snd (addNoiseWords text s))"
    by (rule addNoiseWords_succeeds(2))
  then show ?thesis
    using assms unfolding consistent_def addNoiseWords_frame by blast
qed

lemma consistent_addContent:
  assumes "consistent s"
  shows "consistent (snd (addContent name text s))"
proof -
  let ?index = "addedIndex text s"
  let ?s' = "snd (addContent name text s)"
  have d: "distinct (map fst ?index)" by (simp add: addedIndex_def makeIndex_distinct)
  have ct: "contentsTable ?s' = (contentsTable s)(name \<mapsto> withNewline text)"
    by (simp add: addContent_eq)
  have w: "distinct (map fst fs) \<and> (\<forall>d \<in> fst ` set fs. contentsTable ?s' d \<noteq> None)"
    if "wordsTable ?s' w = Some fs" for w fs
  proof -
    from that have sv: "savedTable name ?index (wordsTable s) w = Some fs"
      by (simp add: addContent_eq)
    have old: "distinct (map fst (fieldsOf (wordsTable s) w))
        \<and> (\<forall>d \<in> fst ` set (fieldsOf (wordsTable s) w). contentsTable s d \<noteq> None)"
    proof (cases "wordsTable s w")
      case None
      then show ?thesis by (simp add: fieldsOf_def)
    next
      case (Some fs0)
      with assms show ?thesis unfolding consistent_def fieldsOf_def by auto
    qed
    show ?thesis
    proof (cases "map_of (okPrefix ?index) w")
      case None
      with sv have "wordsTable s w = Some fs" by (simp add: savedTable_lookup [OF d])
      then have "fieldsOf (wordsTable s) w = fs" by (simp add: fieldsOf_def)
      with old show ?thesis by (auto simp: ct)
    next
      case (Some v)
      with okPrefix_values obtain c off where v: "v = WordInfo c off" by (cases v) auto
      with Some sv have fs: "fs = setField name (c, off) (fieldsOf (wordsTable s) w)"
        by (simp add: savedTable_lookup [OF d])
      have "distinct (map fst fs)" unfolding fs using old by (simp add: setField_distinct)
      moreover have "\<forall>d \<in> fst ` set fs. contentsTable ?s' d \<noteq> None"
        unfolding fs setField_keys using old by (auto simp: ct)
      ultimately show ?thesis by simp
    qed
  qed
  have c: "distinct ws" if "completionsTable ?s' k = Some ws" for k ws
  proof -
    from that have "completionsTable s k = Some ws
        \<or> completedTable (makeCompletions (map fst ?index)) (completionsTable s) k = Some ws"
      by (simp add: addContent_eq split: if_splits)
    then have "completionsTable s k = Some ws \<or> (\<exists>xs. ws = newSet xs)"
      using completedTable_Some by blast
    then show ?thesis
      using assms unfolding consistent_def by auto
  qed
  have n: "noiseTable ?s' \<subseteq> noiseWords ?s'"
    using assms by (simp add: addContent_noise consistent_def)
  show ?thesis
    unfolding consistent_def using w c n by blast
qed

lemma reachable_consistent: "reachable s \<Longrightarrow> consistent s"
  by (induction rule: reachable.induct)
     (simp_all add: consistent_emptyState consistent_create consistent_clear
        consistent_addContent consistent_addNoiseWords)

lemma reachable_wellFormed: "reachable s \<Longrightarrow> wellFormed s"
  by (induction rule: reachable.induct)
     (simp_all add: wellFormed_emptyState wellFormed_create wellFormed_clear
        wellFormed_addContent wellFormed_addNoiseWords)

section \<open>Noise words after a call\<close>

lemma reachablePlain_reachable: "reachablePlain s \<Longrightarrow> reachable s"
  by (induction rule: reachablePlain.induct) (auto intro: reachable.intros)

lemma addNoiseWords_persisted:
  assumes "noiseTable s \<subseteq> noiseWords s" and "w \<in> set (normalizedWords text)"
  shows "w \<in> noiseTable (snd (addNoiseWords text s)) \<longleftrightarrow> w \<in> noiseTable s \<or> w \<notin> noiseWords s"
proof -
  let ?noise = "filter (\<lambda>n. n \<notin> noiseWords s) (newSet (words text s))"
  have "distinct ?noise" by simp
  moreover have "set ?noise \<inter> noiseTable s = {}" using assms(1) by auto
  ultimately have im: "insertMany ?noise (noiseTable s) = (Inr (), noiseTable s \<union> set ?noise)"
    by (rule insertMany_ok)
  have t: "noiseTable (snd (addNoiseWords text s)) = noiseTable s \<union> set ?noise"
    using im by (auto simp: addNoiseWords_def Let_def)
  have "w \<in> set ?noise \<longleftrightarrow> w \<notin> noiseWords s"
    using assms(2) by (auto simp: words_filter)
  with t show ?thesis by simp
qed

text \<open>
  C8, as the code has it: a second \<open>addNoiseWords\<close> with the same text changes nothing,
  neither the \<open>noise\<close> collection nor the cached set nor anything else, whatever the first
  call did. A call that succeeds leaves every normalized word of the text in the cached set.
  The call succeeds whenever the collection holds no word the cache lacks, as in every state
  the engine can reach, and then a normalized word of the text is in the collection after
  the call exactly when it was there before or the cache did not hold it: the call inserts
  only the words the cache lacks. So when collection and cache agree before the call, every
  normalized word of the text is in both after it.
\<close>

theorem addNoiseWords_idempotent:
  "snd (addNoiseWords text (snd (addNoiseWords text s))) = snd (addNoiseWords text s)
   \<and> (fst (addNoiseWords text s) = Inr () \<longrightarrow>
        (\<forall>w \<in> set (normalizedWords text). w \<in> noiseWords (snd (addNoiseWords text s))))
   \<and> (noiseTable s \<subseteq> noiseWords s \<longrightarrow> fst (addNoiseWords text s) = Inr ())
   \<and> (reachable s \<longrightarrow>
        fst (addNoiseWords text s) = Inr ()
        \<and> (\<forall>w \<in> set (normalizedWords text).
              w \<in> noiseWords (snd (addNoiseWords text s))
              \<and> (w \<in> noiseTable (snd (addNoiseWords text s))
                   \<longleftrightarrow> w \<in> noiseTable s \<or> w \<notin> noiseWords s)))
   \<and> (noiseTable s = noiseWords s \<longrightarrow>
        (\<forall>w \<in> set (normalizedWords text). w \<in> noiseTable (snd (addNoiseWords text s))))"
proof -
  have 1: "snd (addNoiseWords text (snd (addNoiseWords text s))) = snd (addNoiseWords text s)"
    by (rule addNoiseWords_idem)
  have 2: "fst (addNoiseWords text s) = Inr () \<longrightarrow>
        (\<forall>w \<in> set (normalizedWords text). w \<in> noiseWords (snd (addNoiseWords text s)))"
    using addNoiseWords_ok_members [of "text" s] by auto
  have 3: "noiseTable s \<subseteq> noiseWords s \<longrightarrow> fst (addNoiseWords text s) = Inr ()"
    using addNoiseWords_succeeds(1) [of s "text"] by blast
  have 4: "reachable s \<longrightarrow>
        fst (addNoiseWords text s) = Inr ()
        \<and> (\<forall>w \<in> set (normalizedWords text).
              w \<in> noiseWords (snd (addNoiseWords text s))
              \<and> (w \<in> noiseTable (snd (addNoiseWords text s))
                   \<longleftrightarrow> w \<in> noiseTable s \<or> w \<notin> noiseWords s))"
  proof
    assume "reachable s"
    then have "consistent s" by (rule reachable_consistent)
    then have sub: "noiseTable s \<subseteq> noiseWords s" by (simp add: consistent_def)
    with 3 have ok: "fst (addNoiseWords text s) = Inr ()" by blast
    with 2 have c: "\<forall>w \<in> set (normalizedWords text). w \<in> noiseWords (snd (addNoiseWords text s))"
      by blast
    show "fst (addNoiseWords text s) = Inr ()
        \<and> (\<forall>w \<in> set (normalizedWords text).
              w \<in> noiseWords (snd (addNoiseWords text s))
              \<and> (w \<in> noiseTable (snd (addNoiseWords text s))
                   \<longleftrightarrow> w \<in> noiseTable s \<or> w \<notin> noiseWords s))"
      using ok c addNoiseWords_persisted [OF sub] by blast
  qed
  have 5: "noiseTable s = noiseWords s \<longrightarrow>
        (\<forall>w \<in> set (normalizedWords text). w \<in> noiseTable (snd (addNoiseWords text s)))"
    using addNoiseWords_ok_members [of "text" s] addNoiseWords_succeeds [of s "text"] by auto
  from 1 2 3 4 5 show ?thesis by (intro conjI)
qed

text \<open>
  After \<open>clear\<close> the cache still holds \<open>the\<close> and the collection does not: adding
  \<open>the\<close> again succeeds without writing anything, so the word is not in the persisted
  set after the call.
\<close>

theorem cleared_noise_counterexample:
  "reachable clearedStore
   \<and> fst (addNoiseWords ''the'' clearedStore) = Inr ()
   \<and> ''the'' \<in> set (normalizedWords ''the'')
   \<and> ''the'' \<in> noiseWords (snd (addNoiseWords ''the'' clearedStore))
   \<and> ''the'' \<notin> noiseTable (snd (addNoiseWords ''the'' clearedStore))"
proof -
  have r: "reachable clearedStore"
    unfolding clearedStore_def by (intro reach_clear reach_addNoiseWords reach_init)
  have 1: "fst (addNoiseWords ''the'' clearedStore) = Inr ()"
    unfolding clearedStore_def by code_simp
  have 2: "''the'' \<in> set (normalizedWords ''the'')" by code_simp
  have 3: "''the'' \<in> noiseWords (snd (addNoiseWords ''the'' clearedStore))"
    unfolding clearedStore_def by code_simp
  have 4: "''the'' \<notin> noiseTable (snd (addNoiseWords ''the'' clearedStore))"
    unfolding clearedStore_def by code_simp
  from r 1 2 3 4 show ?thesis by (intro conjI)
qed

lemma normalizedWords_example: "normalizedWords ''The cat's a THE'' = [''the'', ''cat'', ''a'', ''the'']"
  by code_simp

lemma cleared_examples:
  "noiseTable clearedStore = {}"
  "''the'' \<in> noiseWords clearedStore"
  "normalizedWords ''the'' = [''the'']"
  unfolding clearedStore_def by code_simp+

theorem addNoiseWords_idempotent_witness:
  "fst (addNoiseWords ''The cat's a THE'' emptyState) = Inr ()
   \<and> noiseTable emptyState = noiseWords emptyState
   \<and> ''cat'' \<in> noiseWords (snd (addNoiseWords ''The cat's a THE'' emptyState))
   \<and> ''cat'' \<in> noiseTable (snd (addNoiseWords ''The cat's a THE'' emptyState))
   \<and> snd (addNoiseWords ''The cat's a THE'' (snd (addNoiseWords ''The cat's a THE'' emptyState)))
       = snd (addNoiseWords ''The cat's a THE'' emptyState)
   \<and> reachable clearedStore
   \<and> fst (addNoiseWords ''the'' clearedStore) = Inr ()
   \<and> ''the'' \<in> noiseWords (snd (addNoiseWords ''the'' clearedStore))
   \<and> ''the'' \<notin> noiseTable (snd (addNoiseWords ''the'' clearedStore))"
proof -
  note t = addNoiseWords_idempotent [of "''The cat's a THE''" emptyState]
  note u = addNoiseWords_idempotent [of "''the''" clearedStore]
  have e: "noiseTable emptyState = noiseWords emptyState" by (simp add: emptyState_def)
  have m: "''cat'' \<in> set (normalizedWords ''The cat's a THE'')"
    unfolding normalizedWords_example by simp
  from t e have 1: "fst (addNoiseWords ''The cat's a THE'' emptyState) = Inr ()" by blast
  from t 1 m have 2: "''cat'' \<in> noiseWords (snd (addNoiseWords ''The cat's a THE'' emptyState))"
    by blast
  from t e m have 3: "''cat'' \<in> noiseTable (snd (addNoiseWords ''The cat's a THE'' emptyState))"
    by blast
  from t have 4: "snd (addNoiseWords ''The cat's a THE'' (snd (addNoiseWords ''The cat's a THE'' emptyState)))
       = snd (addNoiseWords ''The cat's a THE'' emptyState)"
    by blast
  have r: "reachable clearedStore"
    unfolding clearedStore_def by (intro reach_clear reach_addNoiseWords reach_init)
  have n: "''the'' \<in> set (normalizedWords ''the'')" unfolding cleared_examples by simp
  from u r have 5: "fst (addNoiseWords ''the'' clearedStore) = Inr ()" by blast
  from u r n have 6: "''the'' \<in> noiseWords (snd (addNoiseWords ''the'' clearedStore))" by blast
  from u r n have "''the'' \<in> noiseTable (snd (addNoiseWords ''the'' clearedStore))
      \<longleftrightarrow> ''the'' \<in> noiseTable clearedStore \<or> ''the'' \<notin> noiseWords clearedStore"
    by blast
  then have 7: "''the'' \<notin> noiseTable (snd (addNoiseWords ''the'' clearedStore))"
    using cleared_examples by simp
  from 1 e 2 3 4 r 5 6 7 show ?thesis by (intro conjI)
qed

section \<open>Completion\<close>

lemma takeWhile_stop:
  "\<not> P y \<Longrightarrow> takeWhile P (xs @ y # ys) = takeWhile P xs"
  by (induction xs) auto

declare splitSpaces.simps [simp del]

lemma splitSpaces_nonempty: "splitSpaces cs \<noteq> []"
  by (subst splitSpaces.simps) (simp add: Let_def)

lemma splitSpaces_last:
  "dropWhile (\<lambda>c. \<not> isSpace c) cs = [] \<Longrightarrow> splitSpaces cs = [takeWhile (\<lambda>c. \<not> isSpace c) cs]"
  by (subst splitSpaces.simps) (simp only: Let_def if_True simp_thms)

lemma splitSpaces_more:
  "dropWhile (\<lambda>c. \<not> isSpace c) cs \<noteq> [] \<Longrightarrow>
   splitSpaces cs = takeWhile (\<lambda>c. \<not> isSpace c) cs
     # splitSpaces (dropWhile isSpace (dropWhile (\<lambda>c. \<not> isSpace c) cs))"
  by (subst splitSpaces.simps) (simp only: Let_def if_False simp_thms)

lemma finalToken_skip:
  assumes "rest \<noteq> []" and "isSpace (hd rest)"
  shows "finalToken (tok @ rest) = finalToken (dropWhile isSpace rest)"
proof -
  let ?sp = "takeWhile isSpace rest" and ?cs = "dropWhile isSpace rest"
  from assms obtain sp' where sp: "?sp = hd rest # sp'" by (cases rest) auto
  have last_sp: "isSpace (last ?sp)"
    using sp by (metis last_in_set list.distinct(1) set_takeWhileD)
  have r: "rev ?sp = last ?sp # rev (butlast ?sp)"
    using sp by (metis append_butlast_last_id list.distinct(1) rev.simps(2) rev_append rev_rev_ident singleton_rev_conv append_Cons append_Nil)
  have "rev (tok @ rest) = rev ?cs @ rev ?sp @ rev tok"
    by (metis append.assoc rev_append takeWhile_dropWhile_id)
  then have "rev (tok @ rest) = rev ?cs @ last ?sp # (rev (butlast ?sp) @ rev tok)"
    using r by simp
  then have "takeWhile (\<lambda>c. \<not> isSpace c) (rev (tok @ rest))
      = takeWhile (\<lambda>c. \<not> isSpace c) (rev ?cs)"
    using last_sp by (simp add: takeWhile_stop)
  then show ?thesis by (simp add: finalToken_def)
qed

lemma last_splitSpaces: "last (splitSpaces cs) = finalToken cs"
proof (induction cs rule: splitSpaces.induct)
  case (1 cs)
  let ?tok = "takeWhile (\<lambda>c. \<not> isSpace c) cs"
  let ?rest = "dropWhile (\<lambda>c. \<not> isSpace c) cs"
  show ?case
  proof (cases "?rest = []")
    case True
    then have all: "\<forall>c \<in> set cs. \<not> isSpace c" by (simp add: dropWhile_eq_Nil_conv)
    then have tw: "takeWhile (\<lambda>c. \<not> isSpace c) (rev cs) = rev cs"
      by (simp add: takeWhile_eq_all_conv)
    have "finalToken cs = cs" unfolding finalToken_def tw by simp
    moreover have "splitSpaces cs = [cs]"
      using splitSpaces_last [OF True] all by (simp add: takeWhile_eq_all_conv)
    ultimately show ?thesis by simp
  next
    case False
    then have h: "isSpace (hd ?rest)"
      using hd_dropWhile [of "\<lambda>c. \<not> isSpace c" cs] by auto
    have "splitSpaces cs = ?tok # splitSpaces (dropWhile isSpace ?rest)"
      using False by (rule splitSpaces_more)
    then have "last (splitSpaces cs) = last (splitSpaces (dropWhile isSpace ?rest))"
      by (simp add: splitSpaces_nonempty)
    also have "\<dots> = finalToken (dropWhile isSpace ?rest)"
      using "1.IH" [OF refl refl False] .
    also have "\<dots> = finalToken (?tok @ ?rest)"
      by (rule finalToken_skip [OF False h, symmetric])
    also have "?tok @ ?rest = cs" by (rule takeWhile_dropWhile_id)
    finally show ?thesis .
  qed
qed

lemma complete_word:
  "text \<noteq> [] \<Longrightarrow> isAlpha (last text) \<Longrightarrow>
   complete text s =
     filter (\<lambda>w. startsWith w (normalize (finalToken text)))
       (sort (fieldsOf (completionsTable s) (firstChar (normalize (finalToken text)))))"
  by (simp add: complete_def Let_def last_map splitSpaces_nonempty last_splitSpaces fieldsOf_def)

text \<open>
  C6: \<open>complete\<close> returns the empty list when the text is empty or its last character is
  not a letter. Every word it returns starts with the normalized final token of the text,
  and the list is sorted in ascending lexicographic order; in a state the engine can reach
  it has no duplicates. A missing completion entry gives the empty list. \<open>complete\<close> is a
  total function to lists: it has no failing case.
\<close>

theorem complete_properties:
  "((text = [] \<or> \<not> isAlpha (last text)) \<longrightarrow> complete text s = [])
   \<and> (\<forall>w \<in> set (complete text s). prefix (normalize (finalToken text)) w)
   \<and> sorted (complete text s)
   \<and> (reachable s \<longrightarrow> distinct (complete text s))
   \<and> (completionsTable s (firstChar (normalize (finalToken text))) = None \<longrightarrow>
        complete text s = [])"
proof (cases "text \<noteq> [] \<and> isAlpha (last text)")
  case False
  then have "complete text s = []" by (auto simp: complete_def)
  then show ?thesis by simp
next
  case True
  let ?word = "normalize (finalToken text)"
  let ?entry = "fieldsOf (completionsTable s) (firstChar ?word)"
  have c: "complete text s = filter (\<lambda>w. startsWith w ?word) (sort ?entry)"
    using True by (simp add: complete_word)
  have "distinct ?entry" if "reachable s"
  proof (cases "completionsTable s (firstChar ?word)")
    case None
    then show ?thesis by (simp add: fieldsOf_def)
  next
    case (Some ws)
    with reachable_consistent [OF that] show ?thesis
      unfolding consistent_def fieldsOf_def by auto
  qed
  then have "reachable s \<longrightarrow> distinct (complete text s)" by (simp add: c)
  moreover have "sorted (complete text s)" by (simp add: c sorted_wrt_filter)
  moreover have "\<forall>w \<in> set (complete text s). prefix ?word w" by (simp add: c startsWith_def)
  moreover have "completionsTable s (firstChar ?word) = None \<longrightarrow> complete text s = []"
    by (simp add: c fieldsOf_def)
  ultimately show ?thesis using True by simp
qed

lemma complete_example:
  "finalToken ''see AL'' = ''AL''"
  "normalize ''AL'' = ''al''"
  "complete ''see AL'' (snd (addContent ''d'' ''beta alpha Al's alpha'' emptyState))
     = [''al'', ''alpha'']"
  "complete ''al '' (snd (addContent ''d'' ''beta alpha Al's alpha'' emptyState)) = []"
  "complete ''zed'' (snd (addContent ''d'' ''beta alpha Al's alpha'' emptyState)) = []"
  by code_simp+

theorem complete_properties_witness:
  "complete ''al '' (snd (addContent ''d'' ''beta alpha Al's alpha'' emptyState)) = []
   \<and> ''alpha'' \<in> set (complete ''see AL'' (snd (addContent ''d'' ''beta alpha Al's alpha'' emptyState)))
   \<and> prefix (normalize (finalToken ''see AL'')) ''alpha''
   \<and> sorted (complete ''see AL'' (snd (addContent ''d'' ''beta alpha Al's alpha'' emptyState)))
   \<and> reachable (snd (addContent ''d'' ''beta alpha Al's alpha'' emptyState))
   \<and> distinct (complete ''see AL'' (snd (addContent ''d'' ''beta alpha Al's alpha'' emptyState)))
   \<and> completionsTable emptyState (firstChar (normalize (finalToken ''zed''))) = None
   \<and> complete ''zed'' emptyState = []"
proof -
  let ?s = "snd (addContent ''d'' ''beta alpha Al's alpha'' emptyState)"
  have r: "reachable ?s" by (rule reach_addContent) (rule reach_init)
  have n: "completionsTable emptyState k = None" for k by (simp add: emptyState_def)
  have "''alpha'' \<in> set (complete ''see AL'' ?s)" by (simp add: complete_example)
  then show ?thesis
    using complete_properties [of "''see AL''" ?s] complete_properties [of "''al ''" ?s]
      complete_properties [of "''zed''" emptyState] r n complete_example
    by auto
qed

section \<open>Sorting with a comparator\<close>

lemma set_insertBy: "set (insertBy c x ys) = insert x (set ys)"
  by (induction ys) auto

lemma set_sortBy: "set (sortBy c xs) = set xs"
  by (induction xs) (simp_all add: sortBy_def set_insertBy)

lemma distinct_map_insertBy:
  "distinct (map f (insertBy c x ys)) \<longleftrightarrow> f x \<notin> f ` set ys \<and> distinct (map f ys)"
  by (induction ys) (auto simp: set_insertBy)

lemma distinct_map_sortBy: "distinct (map f (sortBy c xs)) \<longleftrightarrow> distinct (map f xs)"
  by (induction xs) (simp_all add: sortBy_def distinct_map_insertBy set_sortBy [unfolded sortBy_def])

lemma sorted_insertBy:
  assumes total: "\<And>a b. c a b \<le> 0 \<or> c b a \<le> 0"
    and trans: "\<And>a b d. c a b \<le> 0 \<Longrightarrow> c b d \<le> 0 \<Longrightarrow> c a d \<le> 0"
    and "sorted_wrt (\<lambda>a b. c a b \<le> 0) ys"
  shows "sorted_wrt (\<lambda>a b. c a b \<le> (0::int)) (insertBy c x ys)"
  using assms(3)
proof (induction ys)
  case Nil
  then show ?case by simp
next
  case (Cons y ys)
  show ?case
  proof (cases "c x y \<le> 0")
    case True
    then have "\<forall>z \<in> set ys. c x z \<le> 0" using Cons.prems trans by auto
    with True Cons.prems show ?thesis by simp
  next
    case False
    then have "c y x \<le> 0" using total by blast
    with False Cons show ?thesis by (auto simp: set_insertBy)
  qed
qed

lemma sorted_sortBy:
  assumes "\<And>a b. c a b \<le> 0 \<or> c b a \<le> 0"
    and "\<And>a b d. c a b \<le> 0 \<Longrightarrow> c b d \<le> 0 \<Longrightarrow> c a d \<le> 0"
  shows "sorted_wrt (\<lambda>a b. c a b \<le> (0::int)) (sortBy c xs)"
proof (induction xs)
  case Nil
  then show ?case by (simp add: sortBy_def)
next
  case (Cons x xs)
  have "sortBy c (x # xs) = insertBy c x (sortBy c xs)" by (simp add: sortBy_def)
  then show ?case using sorted_insertBy [OF assms Cons.IH] by simp
qed

lemma compareResults_le: "compareResults cmp r1 r2 \<le> 0 \<longleftrightarrow> resultOrder cmp r1 r2"
  by (auto simp: compareResults_def resultOrder_def Let_def)

lemma sorted_compareResults:
  assumes "\<forall>a b. cmp a b \<le> 0 \<or> cmp b a \<le> 0"
    and "\<forall>a b c. cmp a b \<le> 0 \<longrightarrow> cmp b c \<le> 0 \<longrightarrow> cmp a c \<le> 0"
  shows "sorted_wrt (resultOrder cmp) (sortBy (compareResults cmp) rs)"
proof -
  have total: "compareResults cmp a b \<le> 0 \<or> compareResults cmp b a \<le> 0" for a b
    using assms(1) unfolding compareResults_le resultOrder_def
    by (metis linorder_neqE_nat)
  have trans: "compareResults cmp a c \<le> 0"
    if "compareResults cmp a b \<le> 0" and "compareResults cmp b c \<le> 0" for a b c
    using that assms(2) unfolding compareResults_le resultOrder_def
    by (metis less_trans)
  have "sorted_wrt (\<lambda>a b. compareResults cmp a b \<le> 0) (sortBy (compareResults cmp) rs)"
    using total trans by (rule sorted_sortBy)
  then show ?thesis by (simp add: compareResults_le)
qed


section \<open>The documents a query matches\<close>

lemma filter_key_distinct:
  "distinct (map fst fs) \<Longrightarrow>
   filter (\<lambda>e. fst e = d) fs = (case map_of fs d of None \<Rightarrow> [] | Some v \<Rightarrow> [(d, v)])"
proof (induction fs)
  case Nil
  then show ?case by simp
next
  case (Cons e fs)
  obtain k v where e: "e = (k, v)" by (cases e)
  show ?case
  proof (cases "k = d")
    case True
    with Cons.prems e have "d \<notin> fst ` set fs" by auto
    then have "filter (\<lambda>e. fst e = d) fs = []" by (auto simp: filter_empty_conv)
    with True e show ?thesis by simp
  next
    case False
    with Cons e show ?thesis by simp
  qed
qed

lemma filter_key_objectEntries:
  assumes "distinct (map fst fs)"
  shows "filter (\<lambda>e. fst e = d) (objectEntries fs)
           = (case map_of fs d of None \<Rightarrow> [] | Some v \<Rightarrow> [(d, v)])"
proof -
  let ?P = "\<lambda>e :: string \<times> 'a. fst e = d"
  let ?A = "\<lambda>e :: string \<times> 'a. isArrayIndex (fst e)"
  let ?f = "\<lambda>e :: string \<times> 'a. digitsValue (fst e)"
  have one: "filter ?P fs = (case map_of fs d of None \<Rightarrow> [] | Some v \<Rightarrow> [(d, v)])"
    using assms by (rule filter_key_distinct)
  have split: "filter ?P (objectEntries fs)
      = sort_key ?f (filter ?P (filter ?A fs)) @ filter ?P (filter (\<lambda>e. \<not> ?A e) fs)"
    by (simp add: objectEntries_def filter_sort)
  show ?thesis
  proof (cases "isArrayIndex d")
    case True
    then have "filter ?P (filter ?A fs) = filter ?P fs"
      and "filter ?P (filter (\<lambda>e. \<not> ?A e) fs) = []"
      by (auto simp: filter_empty_conv intro: filter_cong)
    then show ?thesis
      unfolding split one by (simp split: option.splits)
  next
    case False
    then have "filter ?P (filter ?A fs) = []"
      and "filter ?P (filter (\<lambda>e. \<not> ?A e) fs) = filter ?P fs"
      by (auto simp: filter_empty_conv intro: filter_cong)
    then show ?thesis
      unfolding split one by simp
  qed
qed

lemma foldl_mapPush_keys_distinct:
  "distinct (map fst m) \<Longrightarrow>
   distinct (map fst (foldl (\<lambda>m x. mapPush (kf x) (vf x) m) m xs))"
  by (induction xs arbitrary: m) (simp_all add: mapPush_distinct)

lemma findDocs_eq:
  "findDocs terms s =
     foldl (\<lambda>docs entry. mapPush (fst entry) (snd entry) docs) []
       (concat (map (termEntries s) terms))"
proof -
  let ?push = "\<lambda>docs (entry :: string \<times> wordInfo). mapPush (fst entry) (snd entry) docs"
  let ?step = "\<lambda>docs term. case wordsTable s term of None \<Rightarrow> docs
                 | Some termIndex \<Rightarrow> foldl ?push docs (objectEntries termIndex)"
  have step: "?step docs t = foldl ?push docs (termEntries s t)" for docs t
    by (simp add: termEntries_def split: option.splits)
  have "foldl ?step docs terms = foldl ?push docs (concat (map (termEntries s) terms))" for docs
  proof (induction terms arbitrary: docs)
    case Nil
    then show ?case by simp
  next
    case (Cons t terms)
    have "foldl ?step docs (t # terms) = foldl ?step (?step docs t) terms" by simp
    also have "\<dots> = foldl ?push (?step docs t) (concat (map (termEntries s) terms))"
      by (rule Cons.IH)
    also have "\<dots> = foldl ?push docs (concat (map (termEntries s) (t # terms)))"
      unfolding step by simp
    finally show ?case .
  qed
  then show ?thesis by (simp add: findDocs_def)
qed

lemma findDocs_distinct: "distinct (map fst (findDocs terms s))"
  unfolding findDocs_eq by (rule foldl_mapPush_keys_distinct) simp

lemma termEntries_filter:
  assumes "consistent s"
  shows "filter (\<lambda>e. fst e = d) (termEntries s t)
           = (case map_of (fieldsOf (wordsTable s) t) d of None \<Rightarrow> [] | Some v \<Rightarrow> [(d, v)])"
proof (cases "wordsTable s t")
  case None
  then show ?thesis by (simp add: termEntries_def fieldsOf_def objectEntries_def)
next
  case (Some fs)
  with assms have "distinct (map fst fs)" unfolding consistent_def by blast
  then show ?thesis
    using Some by (simp add: termEntries_def fieldsOf_def filter_key_objectEntries)
qed

lemma matched_values:
  assumes "consistent s"
  shows "map snd (filter (\<lambda>e. fst e = d) (concat (map (termEntries s) terms)))
           = matchedInfos s terms d"
proof (induction terms)
  case Nil
  then show ?case by (simp add: matchedInfos_def)
next
  case (Cons t terms)
  have "map snd (filter (\<lambda>e. fst e = d) (termEntries s t))
      = (case map_of (fieldsOf (wordsTable s) t) d of None \<Rightarrow> [] | Some v \<Rightarrow> [v])"
    unfolding termEntries_filter [OF assms] by (simp split: option.splits)
  then show ?case using Cons.IH by (simp add: matchedInfos_def)
qed

lemma map_of_findDocs:
  assumes "consistent s"
  shows "map_of (findDocs terms s) d =
           (if matchedInfos s terms d = [] then None else Some (matchedInfos s terms d))"
proof -
  let ?es = "concat (map (termEntries s) terms)"
  have "map_of (findDocs terms s) d =
      (if filter (\<lambda>e. fst e = d) ?es = [] then None
       else Some (map snd (filter (\<lambda>e. fst e = d) ?es)))"
    unfolding findDocs_eq
    using map_of_foldl_mapPush [of fst snd "[]" ?es d] by (simp add: fieldsOf_def)
  moreover have "filter (\<lambda>e. fst e = d) ?es = [] \<longleftrightarrow> matchedInfos s terms d = []"
    using matched_values [OF assms, of d terms] by (metis map_is_Nil_conv)
  ultimately show ?thesis by (simp add: matched_values [OF assms])
qed

lemma findDocs_entry:
  assumes "consistent s" and "doc \<in> set (findDocs terms s)"
  shows "snd doc = matchedInfos s terms (fst doc)" and "matchedInfos s terms (fst doc) \<noteq> []"
proof -
  have "map_of (findDocs terms s) (fst doc) = Some (snd doc)"
    using assms(2) findDocs_distinct by (metis map_of_is_SomeI prod.collapse)
  then show "snd doc = matchedInfos s terms (fst doc)" and "matchedInfos s terms (fst doc) \<noteq> []"
    unfolding map_of_findDocs [OF assms(1)] by (simp_all split: if_splits)
qed

lemma findDocs_names:
  assumes "consistent s"
  shows "fst ` set (findDocs terms s) = {d. matchedInfos s terms d \<noteq> []}"
proof -
  have "d \<in> fst ` set (findDocs terms s) \<longleftrightarrow> matchedInfos s terms d \<noteq> []" for d
    using map_of_findDocs [OF assms, of terms d]
    by (metis map_of_eq_None_iff option.distinct(1))
  then show ?thesis by blast
qed

lemma matchedInfos_nonempty:
  "matchedInfos s terms d \<noteq> [] \<longleftrightarrow> (\<exists>t \<in> set terms. inEntry s t d)"
proof -
  have "(case map_of (fieldsOf (wordsTable s) t) d of None \<Rightarrow> [] | Some wordInfo \<Rightarrow> [wordInfo]) \<noteq> []
      \<longleftrightarrow> inEntry s t d" for t
  proof (cases "map_of (fieldsOf (wordsTable s) t) d")
    case None
    then have "d \<notin> fst ` set (fieldsOf (wordsTable s) t)" by (simp add: map_of_eq_None_iff)
    with None show ?thesis by (simp add: inEntry_def)
  next
    case (Some v)
    then have "(d, v) \<in> set (fieldsOf (wordsTable s) t)" by (rule map_of_SomeD)
    then have "d \<in> fst ` set (fieldsOf (wordsTable s) t)" by force
    with Some show ?thesis by (simp add: inEntry_def)
  qed
  then show ?thesis by (auto simp: matchedInfos_def)
qed

lemma sum_matchedInfos:
  "foldl (\<lambda>acc wordInfo. acc + fst wordInfo) 0 (matchedInfos s terms d)
     = sum_list (map (\<lambda>t. storedCount s t d) terms)"
proof -
  have f: "foldl (\<lambda>acc wordInfo. acc + fst wordInfo) a ws = a + sum_list (map fst ws)"
    for a :: nat and ws :: "wordInfo list"
    by (induction ws arbitrary: a) simp_all
  have "sum_list (map fst (matchedInfos s terms d)) = sum_list (map (\<lambda>t. storedCount s t d) terms)"
    by (induction terms) (simp_all add: matchedInfos_def storedCount_def split: option.splits)
  then show ?thesis by (simp add: f)
qed


section \<open>Search results\<close>

lemma toResult_sel:
  "nameOf (toResult (OffsetResult name score offsets) contents) = name"
  "scoreOf (toResult (OffsetResult name score offsets) contents) = score"
  by (simp_all add: Let_def)

lemma mkResult_sel:
  "nameOf (mkResult s doc) = fst doc"
  "scoreOf (mkResult s doc) = foldl (\<lambda>acc wordInfo. acc + fst wordInfo) 0 (snd doc)"
  unfolding mkResult_def by (rule toResult_sel)+

lemma findResults_eq:
  "\<forall>doc \<in> set docs. contentsTable s (fst doc) \<noteq> None \<Longrightarrow>
   findResults docs s = Inr (map (mkResult s) docs)"
proof (induction docs)
  case Nil
  then show ?case by simp
next
  case (Cons doc docs)
  obtain name wordInfos where doc: "doc = (name, wordInfos)" by (cases doc)
  from Cons.prems doc obtain contents where c: "contentsTable s name = Some contents" by auto
  have rest: "findResults docs s = Inr (map (mkResult s) docs)"
    using Cons by simp
  show ?case
    unfolding doc by (simp add: docContent_def c rest Let_def mkResult_def del: toResult.simps)
qed

lemma findDocs_contents:
  assumes "consistent s" and "doc \<in> set (findDocs terms s)"
  shows "contentsTable s (fst doc) \<noteq> None"
proof -
  from findDocs_entry(2) [OF assms] obtain t where "inEntry s t (fst doc)"
    unfolding matchedInfos_nonempty by blast
  then have m: "fst doc \<in> fst ` set (fieldsOf (wordsTable s) t)" by (simp add: inEntry_def)
  then obtain fs where "wordsTable s t = Some fs" and "fst doc \<in> fst ` set fs"
    by (cases "wordsTable s t") (auto simp: fieldsOf_def)
  with assms(1) show ?thesis unfolding consistent_def by blast
qed

lemma find_eq:
  assumes "consistent s"
  shows "find cmp text s =
           Inr (sortBy (compareResults cmp)
                  (map (mkResult s) (findDocs (newSet (words text s)) s)))"
proof -
  have "\<forall>doc \<in> set (findDocs (newSet (words text s)) s). contentsTable s (fst doc) \<noteq> None"
    using findDocs_contents [OF assms] by blast
  then show ?thesis by (simp add: find_def Let_def findResults_eq)
qed

text \<open>
  Ranking, where every document was added under a plain name: in every such state the
  engine can reach, and for every comparison of names that is total and transitive,
  \<open>find\<close> succeeds; its results are sorted by descending score, equal scores by ascending
  name; the score of each result is the sum, over the distinct terms of the query, of the
  count stored for that term and that document; and there is exactly one result for each
  document that an entry of some query term lists. Nothing is said here of a store to which
  a document was added under a name that is not plain: there the entries hold other fields
  than the ones \<open>findDocs\<close> describes.
\<close>

theorem find_sorted_scored:
  assumes "reachablePlain s"
    and "\<forall>a b. cmp a b \<le> 0 \<or> cmp b a \<le> 0"
    and "\<forall>a b c. cmp a b \<le> 0 \<longrightarrow> cmp b c \<le> 0 \<longrightarrow> cmp a c \<le> 0"
  shows "\<exists>rs. find cmp text s = Inr rs
           \<and> sorted_wrt (resultOrder cmp) rs
           \<and> (\<forall>r \<in> set rs. scoreOf r =
                 sum_list (map (\<lambda>t. storedCount s t (nameOf r)) (newSet (words text s))))
           \<and> distinct (map nameOf rs)
           \<and> set (map nameOf rs) = {d. \<exists>t \<in> set (words text s). inEntry s t d}"
proof -
  let ?terms = "newSet (words text s)"
  let ?docs = "findDocs ?terms s"
  let ?rs = "sortBy (compareResults cmp) (map (mkResult s) ?docs)"
  have c: "consistent s"
    using assms(1) by (intro reachable_consistent reachablePlain_reachable)
  have f: "find cmp text s = Inr ?rs" using c by (rule find_eq)
  have srt: "sorted_wrt (resultOrder cmp) ?rs"
    using assms(2,3) by (rule sorted_compareResults)
  have names: "map nameOf (map (mkResult s) ?docs) = map fst ?docs"
    by (simp add: mkResult_sel comp_def)
  have sc: "scoreOf r = sum_list (map (\<lambda>t. storedCount s t (nameOf r)) ?terms)"
    if "r \<in> set ?rs" for r
  proof -
    from that obtain doc where doc: "doc \<in> set ?docs" and r: "r = mkResult s doc"
      by (auto simp: set_sortBy)
    have "snd doc = matchedInfos s ?terms (fst doc)" using c doc by (rule findDocs_entry(1))
    then show ?thesis
      unfolding r mkResult_sel by (simp add: sum_matchedInfos)
  qed
  have d: "distinct (map nameOf ?rs)"
    unfolding distinct_map_sortBy names by (rule findDocs_distinct)
  have "set (map nameOf ?rs) = fst ` set ?docs"
    by (simp add: set_sortBy mkResult_sel image_image)
  also have "\<dots> = {d. \<exists>t \<in> set (words text s). inEntry s t d}"
    unfolding findDocs_names [OF c] matchedInfos_nonempty by simp
  finally have n: "set (map nameOf ?rs) = {d. \<exists>t \<in> set (words text s). inEntry s t d}" .
  show ?thesis using f srt sc d n by blast
qed

lemma lexCompare_total: "\<forall>a b. lexCompare a b \<le> 0 \<or> lexCompare b a \<le> 0"
  by (auto simp: lexCompare_def)

lemma lexCompare_trans:
  "\<forall>a b c. lexCompare a b \<le> 0 \<longrightarrow> lexCompare b c \<le> 0 \<longrightarrow> lexCompare a c \<le> 0"
  by (auto simp: lexCompare_def split: if_splits)

lemma find_examples:
  "find lexCompare ''apple banana'' fruitStore
     = Inr [Result ''d2'' 6 [''apple banana banana banana banana banana\<newline>''],
            Result ''d1'' 3 [''apple apple apple\<newline>'']]"
  "find lexCompare ''pear'' tiedStore
     = Inr [Result ''a'' 1 [''pear\<newline>''], Result ''b'' 1 [''pear\<newline>'']]"
  unfolding fruitStore_def tiedStore_def by code_simp+

theorem find_sorted_scored_witness:
  "reachablePlain fruitStore \<and> reachablePlain tiedStore
   \<and> sorted_wrt (resultOrder lexCompare)
        [Result ''d2'' 6 [''apple banana banana banana banana banana\<newline>''],
         Result ''d1'' 3 [''apple apple apple\<newline>'']]
   \<and> sorted_wrt (resultOrder lexCompare)
        [Result ''a'' 1 [''pear\<newline>''], Result ''b'' 1 [''pear\<newline>'']]
   \<and> sum_list (map (\<lambda>t. storedCount fruitStore t ''d2'')
        (newSet (words ''apple banana'' fruitStore))) = 6"
proof -
  have r1: "reachablePlain fruitStore"
    unfolding fruitStore_def by (intro plain_addContent plain_init) (simp_all add: plainName_def)
  have r2: "reachablePlain tiedStore"
    unfolding tiedStore_def by (intro plain_addContent plain_init) (simp_all add: plainName_def)
  let ?fruit = "[Result ''d2'' 6 [''apple banana banana banana banana banana\<newline>''],
                 Result ''d1'' 3 [''apple apple apple\<newline>'']]"
  let ?tied = "[Result ''a'' 1 [''pear\<newline>''], Result ''b'' 1 [''pear\<newline>'']]"
  from find_sorted_scored [OF r1 lexCompare_total lexCompare_trans, of "''apple banana''"]
  obtain rs where rs: "find lexCompare ''apple banana'' fruitStore = Inr rs"
    and s1: "sorted_wrt (resultOrder lexCompare) rs"
    and sc: "\<forall>r \<in> set rs. scoreOf r =
      sum_list (map (\<lambda>t. storedCount fruitStore t (nameOf r))
        (newSet (words ''apple banana'' fruitStore)))"
    by blast
  from rs have e1: "rs = ?fruit" unfolding find_examples by simp
  from find_sorted_scored [OF r2 lexCompare_total lexCompare_trans, of "''pear''"]
  obtain rs' where rs': "find lexCompare ''pear'' tiedStore = Inr rs'"
    and s2: "sorted_wrt (resultOrder lexCompare) rs'"
    by blast
  from rs' have e2: "rs' = ?tied" unfolding find_examples by simp
  have "Result ''d2'' 6 [''apple banana banana banana banana banana\<newline>''] \<in> set rs"
    unfolding e1 by simp
  from sc [rule_format, OF this]
  have "sum_list (map (\<lambda>t. storedCount fruitStore t ''d2'')
        (newSet (words ''apple banana'' fruitStore))) = 6"
    by simp
  then show ?thesis
    using r1 r2 s1 [unfolded e1] s2 [unfolded e2] by (intro conjI)
qed

section \<open>What the word regex matches\<close>

lemma takeWhile_run:
  assumes "\<forall>c \<in> set tok. P c" and "rest = [] \<or> \<not> P (hd rest)"
  shows "takeWhile P (tok @ rest) = tok"
proof -
  have "takeWhile P rest = []" using assms(2) by (cases rest) auto
  then show ?thesis using assms(1) by (simp add: takeWhile_append2)
qed

lemma execWordRegex_Some:
  assumes "execWordRegex content i = Some (m, j, k)"
  shows "\<forall>p. i \<le> p \<and> p < j \<longrightarrow> isSpace (content ! p)"
    and "\<forall>c \<in> set m. \<not> isSpace c"
    and "take (length m) (drop j content) = m"
    and "k = length content \<or> isSpace (content ! k)"
    and "m = takeWhile (\<lambda>c. \<not> isSpace c) (drop j content)"
proof -
  let ?sp = "takeWhile isSpace (drop i content)"
  let ?j = "i + length ?sp"
  let ?m = "takeWhile (\<lambda>c. \<not> isSpace c) (drop ?j content)"
  from assms have ne: "?m \<noteq> []" and m: "m = ?m" and j: "j = ?j" and k: "k = ?j + length ?m"
    by (auto simp: execWordRegex_def Let_def split: if_splits)
  show "m = takeWhile (\<lambda>c. \<not> isSpace c) (drop j content)" using m j by simp
  show "\<forall>c \<in> set m. \<not> isSpace c" unfolding m using set_takeWhileD by fastforce
  show "take (length m) (drop j content) = m"
    unfolding m j by (metis append_eq_conv_conj takeWhile_dropWhile_id)
  show "\<forall>p. i \<le> p \<and> p < j \<longrightarrow> isSpace (content ! p)"
  proof (intro allI impI)
    fix p assume p: "i \<le> p \<and> p < j"
    then have q: "p - i < length ?sp" using j by auto
    then have "?sp ! (p - i) = drop i content ! (p - i)" by (rule takeWhile_nth)
    moreover have "isSpace (?sp ! (p - i))" using q by (metis nth_mem set_takeWhileD)
    moreover have "i + (p - i) < length content"
      using q length_takeWhile_le [of isSpace "drop i content"] by simp
    ultimately show "isSpace (content ! p)" using p by simp
  qed
  show "k = length content \<or> isSpace (content ! k)"
  proof (cases "k < length content")
    case False
    with execWordRegex_bounds(2) [OF assms] show ?thesis by simp
  next
    case True
    let ?d = "dropWhile (\<lambda>c. \<not> isSpace c) (drop ?j content)"
    have len: "length ?m + length ?d = length content - ?j"
      by (metis length_append length_drop takeWhile_dropWhile_id)
    then have pos: "0 < length ?d" using True k by linarith
    then have dne: "?d \<noteq> []" by (metis length_greater_0_conv)
    have "isSpace (hd ?d)" using hd_dropWhile [OF dne] by simp
    moreover have "hd ?d = drop ?j content ! length ?m"
      by (metis pos dropWhile_eq_drop hd_drop_conv_nth len length_drop less_add_same_cancel1)
    moreover have "drop ?j content ! length ?m = content ! k"
      using True k by simp
    ultimately show ?thesis by simp
  qed
qed

lemma execWordRegex_None:
  assumes "execWordRegex content i = None" and "i \<le> p" and "p < length content"
  shows "isSpace (content ! p)"
proof -
  let ?sp = "takeWhile isSpace (drop i content)"
  let ?j = "i + length ?sp"
  let ?d = "dropWhile isSpace (drop i content)"
  from assms(1) have e: "takeWhile (\<lambda>c. \<not> isSpace c) (drop ?j content) = []"
    by (auto simp: execWordRegex_def Let_def split: if_splits)
  have dd: "drop ?j content = ?d"
    by (simp add: add.commute dropWhile_eq_drop)
  have "?d = []"
  proof (rule ccontr)
    assume ne: "?d \<noteq> []"
    then have "\<not> isSpace (hd ?d)" by (rule hd_dropWhile)
    with ne have "takeWhile (\<lambda>c. \<not> isSpace c) ?d \<noteq> []" by (cases ?d) auto
    with e dd show False by simp
  qed
  then have "\<forall>c \<in> set (drop i content). isSpace c" by (simp add: dropWhile_eq_Nil_conv)
  moreover have "content ! p \<in> set (drop i content)"
  proof -
    have "drop i content ! (p - i) = content ! (i + (p - i))"
      by (rule nth_drop) (use assms(2,3) in simp)
    moreover have "p - i < length (drop i content)" using assms(2,3) by simp
    ultimately show ?thesis using assms(2) by (metis le_add_diff_inverse nth_mem)
  qed
  ultimately show ?thesis by blast
qed


lemma execWordRegex_inside:
  assumes "execWordRegex content i = Some (m, j, k)" and "j \<le> p" and "p < k"
  shows "\<not> isSpace (content ! p)"
proof -
  have "p - j < length m" using assms(2,3) execWordRegex_bounds(4) [OF assms(1)] by simp
  then have "m ! (p - j) \<in> set m" by simp
  moreover have "m ! (p - j) = content ! p"
  proof -
    have "m ! (p - j) = take (length m) (drop j content) ! (p - j)"
      by (simp add: execWordRegex_Some(3) [OF assms(1)])
    also have "\<dots> = drop j content ! (p - j)"
      using \<open>p - j < length m\<close> by (rule nth_take)
    also have "\<dots> = content ! (j + (p - j))"
      by (rule nth_drop) (use execWordRegex_bounds(2,4) [OF assms(1)] in simp)
    finally show ?thesis using assms(2) by simp
  qed
  ultimately show ?thesis using execWordRegex_Some(2) [OF assms(1)] by auto
qed

lemma isToken_first:
  assumes "isToken content off tok"
  shows "off < length content" and "\<not> isSpace (content ! off)"
proof -
  from assms have ne: "tok \<noteq> []" and le: "off + length tok \<le> length content"
    and tk: "take (length tok) (drop off content) = tok" and ns: "\<forall>c \<in> set tok. \<not> isSpace c"
    by (simp_all add: isToken_def)
  show "off < length content" using ne le by (cases tok) auto
  have "tok ! 0 = content ! off"
    using tk ne \<open>off < length content\<close>
    by (metis Cons_nth_drop_Suc length_greater_0_conv nth_Cons_0 nth_take)
  moreover have "tok ! 0 \<in> set tok" using ne by simp
  ultimately show "\<not> isSpace (content ! off)" using ns by auto
qed

lemma execWordRegex_token:
  assumes e: "execWordRegex content i = Some (m, j, k)" and b: "boundary content i"
  shows "isToken content j m" and "boundary content k"
proof -
  note bd = execWordRegex_bounds [OF e]
  have left: "j = 0 \<or> isSpace (content ! (j - 1))"
  proof (cases "i < j")
    case True
    then show ?thesis using execWordRegex_Some(1) [OF e] by simp
  next
    case False
    then have ij: "j = i" using bd(3) by simp
    have "\<not> isSpace (content ! j)" using execWordRegex_inside [OF e, of j] bd by simp
    moreover have "j < length content" using bd by (cases m) auto
    ultimately show ?thesis using b ij by (auto simp: boundary_def)
  qed
  show "isToken content j m"
    unfolding isToken_def
    using bd left execWordRegex_Some(2,3,4) [OF e] by simp
  show "boundary content k"
    using execWordRegex_Some(4) [OF e] by (auto simp: boundary_def)
qed

lemma isToken_unique:
  assumes "isToken content off tok" and "execWordRegex content i = Some (m, off, k)"
  shows "tok = m"
proof -
  let ?xs = "drop off content"
  let ?rest = "drop (length tok) ?xs"
  from assms(1) have ns: "\<forall>c \<in> set tok. \<not> isSpace c"
    and tk: "take (length tok) ?xs = tok"
    and right: "off + length tok = length content \<or> isSpace (content ! (off + length tok))"
    and le: "off + length tok \<le> length content"
    by (simp_all add: isToken_def)
  have xs: "?xs = tok @ ?rest" using tk by (metis append_take_drop_id)
  have "?rest = [] \<or> isSpace (hd ?rest)"
    using right le by (metis add.commute drop_all drop_drop hd_drop_conv_nth not_le_imp_less)
  then have "?rest = [] \<or> \<not> \<not> isSpace (hd ?rest)" by simp
  with ns have "takeWhile (\<lambda>c. \<not> isSpace c) (tok @ ?rest) = tok"
    by (intro takeWhile_run) auto
  then show ?thesis using execWordRegex_Some(5) [OF assms(2)] xs by simp
qed

section \<open>Extraction of the words of a text\<close>

lemma wordsLoop_sound:
  "boundary content i \<Longrightarrow> p \<in> set (wordsLoop noise content i) \<Longrightarrow>
   i \<le> snd p \<and> (\<exists>tok. isToken content (snd p) tok \<and> fst p = normalize tok)"
proof (induction noise content i rule: wordsLoop_induct)
  case (step noise content i)
  show ?case
  proof (cases "execWordRegex content i")
    case None
    with step.prems show ?thesis by (simp add: wordsLoop_None)
  next
    case (Some a)
    obtain m j k where a: "a = (m, j, k)" by (cases a)
    with Some have e: "execWordRegex content i = Some (m, j, k)" by simp
    note bd = execWordRegex_bounds [OF e]
    from step.prems(2) have "p = (normalize m, j) \<or> p \<in> set (wordsLoop noise content k)"
      by (auto simp: wordsLoop_Some [OF e] split: if_splits)
    then show ?thesis
    proof
      assume "p = (normalize m, j)"
      then show ?thesis using execWordRegex_token(1) [OF e step.prems(1)] bd by auto
    next
      assume "p \<in> set (wordsLoop noise content k)"
      from step.IH [OF e execWordRegex_token(2) [OF e step.prems(1)] this]
      show ?thesis using bd by auto
    qed
  qed
qed

lemma wordsLoop_complete:
  "boundary content i \<Longrightarrow> isToken content off tok \<Longrightarrow> i \<le> off \<Longrightarrow>
   normalize tok \<noteq> [] \<Longrightarrow> normalize tok \<notin> noise \<Longrightarrow>
   (normalize tok, off) \<in> set (wordsLoop noise content i)"
proof (induction noise content i rule: wordsLoop_induct)
  case (step noise content i)
  note first = isToken_first [OF step.prems(2)]
  show ?case
  proof (cases "execWordRegex content i")
    case None
    from execWordRegex_None [OF None step.prems(3) first(1)] first(2) show ?thesis by simp
  next
    case (Some a)
    obtain m j k where a: "a = (m, j, k)" by (cases a)
    with Some have e: "execWordRegex content i = Some (m, j, k)" by simp
    note bd = execWordRegex_bounds [OF e]
    have "j \<le> off"
    proof (rule ccontr)
      assume "\<not> j \<le> off"
      then have "isSpace (content ! off)"
        using execWordRegex_Some(1) [OF e] step.prems(3) by simp
      with first(2) show False by simp
    qed
    show ?thesis
    proof (cases "off = j")
      case True
      with e step.prems(2) have "tok = m" using isToken_unique by blast
      then show ?thesis
        using True step.prems(4,5) by (simp add: wordsLoop_Some [OF e])
    next
      case False
      with \<open>j \<le> off\<close> have gt: "j < off" by simp
      then have "isSpace (content ! (off - 1))"
        using step.prems(2) by (auto simp: isToken_def)
      moreover have "j \<le> off - 1" using gt by simp
      ultimately have "\<not> (off - 1 < k)"
        using execWordRegex_inside [OF e, of "off - 1"] by blast
      then have "k \<le> off" using gt by simp
      from step.IH [OF e execWordRegex_token(2) [OF e step.prems(1)] step.prems(2) this
          step.prems(4,5)]
      show ?thesis by (simp add: wordsLoop_Some [OF e])
    qed
  qed
qed

lemma wordsLoop_lower: "p \<in> set (wordsLoop noise content i) \<Longrightarrow> i \<le> snd p"
proof (induction noise content i rule: wordsLoop_induct)
  case (step noise content i)
  show ?case
  proof (cases "execWordRegex content i")
    case None
    with step.prems show ?thesis by (simp add: wordsLoop_None)
  next
    case (Some a)
    obtain m j k where a: "a = (m, j, k)" by (cases a)
    with Some have e: "execWordRegex content i = Some (m, j, k)" by simp
    note bd = execWordRegex_bounds [OF e]
    from step.prems have "p = (normalize m, j) \<or> p \<in> set (wordsLoop noise content k)"
      by (auto simp: wordsLoop_Some [OF e] split: if_splits)
    then show ?thesis using step.IH [OF e] bd by auto
  qed
qed

lemma wordsLoop_sorted: "sorted_wrt (<) (map snd (wordsLoop noise content i))"
proof (induction noise content i rule: wordsLoop_induct)
  case (step noise content i)
  show ?case
  proof (cases "execWordRegex content i")
    case None
    then show ?thesis by (simp add: wordsLoop_None)
  next
    case (Some a)
    obtain m j k where a: "a = (m, j, k)" by (cases a)
    with Some have e: "execWordRegex content i = Some (m, j, k)" by simp
    note bd = execWordRegex_bounds [OF e]
    have "j < snd p" if "p \<in> set (wordsLoop noise content k)" for p
    proof -
      from wordsLoop_lower [OF that] bd show ?thesis by (cases m) auto
    qed
    then have "\<forall>p \<in> set (wordsLoop noise content k). j < snd p" by blast
    then show ?thesis
      using step.IH [OF e] by (simp add: wordsLoop_Some [OF e])
  qed
qed


section \<open>Normalization\<close>

lemma stem_strip: "stem (w @ [CHR 0x27, CHR ''s'']) = w"
proof -
  have "suffix [CHR 0x27, CHR ''s''] (w @ [CHR 0x27, CHR ''s''])" by (rule suffix_appendI) simp
  then show ?thesis by (simp add: stem_def endsWith_def)
qed

lemma stem_keep: "\<not> suffix [CHR 0x27, CHR ''s''] w \<Longrightarrow> stem w = w"
  by (simp add: stem_def endsWith_def)

lemma of_char_letters: "of_char (CHR ''a'') = (97::nat)" "of_char (CHR ''z'') = (122::nat)"
  "of_char (CHR ''A'') = (65::nat)" "of_char (CHR ''Z'') = (90::nat)"
  by simp_all

lemma toLowerChar_alpha: "isLowerAlpha (toLowerChar c) \<longleftrightarrow> isAlpha c"
proof -
  let ?n = "of_char c :: nat"
  have lt: "?n < 256" by simp
  have le: "a \<le> b \<longleftrightarrow> (of_char a :: nat) \<le> of_char b" for a b :: char
    by (simp add: less_eq_char_def)
  show ?thesis
  proof (cases "(65 \<le> ?n \<and> ?n \<le> 90) \<or> (192 \<le> ?n \<and> ?n \<le> 222 \<and> ?n \<noteq> 215)")
    case True
    have t: "toLowerChar c = char_of (?n + 32)"
      unfolding toLowerChar_def Let_def by (rule if_P) (rule True)
    have "(of_char (char_of (?n + 32)) :: nat) = ?n + 32"
      using True by (auto simp: of_char_of)
    then show ?thesis
      using True unfolding t isLowerAlpha_def isAlpha_def le of_char_letters by auto
  next
    case False
    have t: "toLowerChar c = c"
      unfolding toLowerChar_def Let_def by (rule if_not_P) (rule False)
    show ?thesis
      using False unfolding t isLowerAlpha_def isAlpha_def le of_char_letters by auto
  qed
qed

lemma wordsLow_sound:
  assumes "p \<in> set (wordsLow content s)"
  shows "fst p \<noteq> [] \<and> fst p \<notin> noiseWords s
         \<and> (\<exists>raw. isToken content (snd p) raw \<and> fst p = normalize raw)"
proof -
  have b: "boundary content 0" by (simp add: boundary_def)
  from assms have p: "p \<in> set (wordsLoop (noiseWords s) content 0)" by (simp add: wordsLow_def)
  from wordsLoop_wfWord [OF p] wordsLoop_sound [OF b p] show ?thesis
    by (simp add: wfWord_def)
qed

lemma wordsLow_complete:
  assumes "isToken content off raw" and "normalize raw \<noteq> []" and "normalize raw \<notin> noiseWords s"
  shows "(normalize raw, off) \<in> set (wordsLow content s)"
proof -
  have b: "boundary content 0" by (simp add: boundary_def)
  show ?thesis
    unfolding wordsLow_def using wordsLoop_complete [OF b assms(1) _ assms(2,3)] by simp
qed

text \<open>
  C7: \<open>normalize\<close> lowercases the token (a character becomes a letter a..z exactly when it
  was a letter), then strips one trailing \<open>'s\<close> if the lowercased token ends with it, then
  keeps only the characters a..z. \<open>_wordsLow\<close> returns pairs of a non-empty, non-noise word and
  an offset such that the word is the normal form of the raw token (a maximal run of
  non-whitespace characters) that starts at that offset of the text; it returns such a pair
  for every raw token whose normal form is non-empty and not a noise word; and the offsets
  are strictly increasing, which is document order.
\<close>

theorem normalize_and_extract:
  "normalize tok = filter isLowerAlpha (stem (map toLowerChar tok))
   \<and> (\<forall>c. isLowerAlpha (toLowerChar c) \<longleftrightarrow> isAlpha c)
   \<and> stem (w @ [CHR 0x27, CHR ''s'']) = w
   \<and> (\<not> suffix [CHR 0x27, CHR ''s''] w \<longrightarrow> stem w = w)
   \<and> (\<forall>p \<in> set (wordsLow content s).
         fst p \<noteq> [] \<and> fst p \<notin> noiseWords s
         \<and> (\<exists>raw. isToken content (snd p) raw \<and> fst p = normalize raw))
   \<and> (\<forall>off raw. isToken content off raw \<and> normalize raw \<noteq> [] \<and> normalize raw \<notin> noiseWords s
         \<longrightarrow> (normalize raw, off) \<in> set (wordsLow content s))
   \<and> sorted_wrt (<) (map snd (wordsLow content s))"
  using wordsLow_sound [of _ content s] wordsLow_complete [of content _ _ s]
    wordsLoop_sorted [of "noiseWords s" content 0] toLowerChar_alpha stem_strip stem_keep
  by (simp add: normalize_def toLowerCase_def wordsLow_def [symmetric])

lemma extract_example:
  "wordsLow ''The cat's  'S hat!'' theNoise = [(''cat'', 4), (''hat'', 14)]"
  "isToken ''The cat's  'S hat!'' 4 ''cat's''"
  "normalize ''cat's'' = ''cat''"
  "normalize ''it's!'' = ''its''"
  "''cat'' \<notin> noiseWords theNoise"
  unfolding theNoise_def by code_simp+

theorem normalize_and_extract_witness:
  "isToken ''The cat's  'S hat!'' 4 ''cat's''
   \<and> normalize ''cat's'' = ''cat''
   \<and> (''cat'', 4) \<in> set (wordsLow ''The cat's  'S hat!'' theNoise)
   \<and> stem ''cat's'' = ''cat''
   \<and> \<not> suffix [CHR 0x27, CHR ''s''] ''its'' \<and> stem ''its'' = ''its''
   \<and> isAlpha CHR ''Q'' \<and> isLowerAlpha (toLowerChar CHR ''Q'')
   \<and> sorted_wrt (<) (map snd (wordsLow ''The cat's  'S hat!'' theNoise))"
proof -
  let ?content = "''The cat's  'S hat!''"
  note t1 = normalize_and_extract [of "''cat's''" "''cat''" ?content theNoise]
  note t2 = normalize_and_extract [of "''cat's''" "''its''" ?content theNoise]
  have n: "\<not> suffix [CHR 0x27, CHR ''s''] ''its''" by (simp add: suffix_Cons)
  have a: "isAlpha CHR ''Q''" by (simp add: isAlpha_def)
  have tk: "isToken ?content 4 ''cat's''" and nm: "normalize ''cat's'' = ''cat''"
    and nn: "''cat'' \<notin> noiseWords theNoise"
    by (rule extract_example)+
  have "isToken ?content 4 ''cat's'' \<and> normalize ''cat's'' \<noteq> []
      \<and> normalize ''cat's'' \<notin> noiseWords theNoise"
    using tk nm nn by simp
  with t1 have "(normalize ''cat's'', 4) \<in> set (wordsLow ?content theNoise)" by blast
  then have 1: "(''cat'', 4) \<in> set (wordsLow ?content theNoise)" by (simp only: nm)
  have "stem (''cat'' @ [CHR 0x27, CHR ''s'']) = ''cat''" using t1 by blast
  then have 2: "stem ''cat's'' = ''cat''" by simp
  have 3: "stem ''its'' = ''its''" using t2 n by blast
  have 4: "isLowerAlpha (toLowerChar CHR ''Q'')" using t1 a by blast
  have 5: "sorted_wrt (<) (map snd (wordsLow ?content theNoise))" using t1 by blast
  show ?thesis using tk nm 1 2 n 3 a 4 5 by (intro conjI)
qed

section \<open>Lines of a document\<close>

lemma lastIndexOf_start:
  "nat (lastIndexOf s c off + 1) =
     length (take (Suc off) s) - length (takeWhile (\<lambda>x. x \<noteq> c) (rev (take (Suc off) s)))"
proof (induction off)
  case 0
  then show ?case by (cases s) auto
next
  case (Suc off)
  show ?case
  proof (cases "Suc off < length s")
    case False
    then have "take (Suc (Suc off)) s = take (Suc off) s" by simp
    with False Suc show ?thesis by simp
  next
    case True
    then have t: "take (Suc (Suc off)) s = take (Suc off) s @ [s ! Suc off]"
      by (rule take_Suc_conv_app_nth)
    show ?thesis
    proof (cases "s ! Suc off = c")
      case eq: True
      with True show ?thesis unfolding t by simp
    next
      case False
      have l: "length (takeWhile (\<lambda>x. x \<noteq> c) (rev (take (Suc off) s))) \<le> length (take (Suc off) s)"
        by (metis length_rev length_takeWhile_le)
      from False True Suc l show ?thesis unfolding t by simp
    qed
  qed
qed

lemma lineStart_code:
  assumes "length contents \<le> off \<or> contents ! off \<noteq> CHR 0x0A"
  shows "nat (lastIndexOf contents (CHR 0x0A) off + 1) = lineStart contents off"
proof (cases "off < length contents")
  case False
  then have "take (Suc off) contents = take off contents" by simp
  then show ?thesis by (simp add: lastIndexOf_start lineStart_def)
next
  case True
  with assms have n: "contents ! off \<noteq> CHR 0x0A" by simp
  have t: "take (Suc off) contents = take off contents @ [contents ! off]"
    using True by (rule take_Suc_conv_app_nth)
  have l: "length (takeWhile (\<lambda>x. x \<noteq> CHR 0x0A) (rev (take off contents))) \<le> length (take off contents)"
    by (metis length_rev length_takeWhile_le)
  show ?thesis
    unfolding lastIndexOf_start lineStart_def t using n l by simp
qed

lemma lineStart_le: "lineStart contents off \<le> off"
  unfolding lineStart_def by simp

lemma lineFrom_code:
  assumes "CHR 0x0A \<in> set (drop i contents)"
  shows "substring contents i (nat (indexOf contents (CHR 0x0A) i + 1)) = lineFrom contents i"
proof -
  let ?t = "takeWhile (\<lambda>c. c \<noteq> CHR 0x0A) (drop i contents)"
  let ?d = "dropWhile (\<lambda>c. c \<noteq> CHR 0x0A) (drop i contents)"
  let ?k = "i + length ?t"
  have dne: "?d \<noteq> []" using assms by (simp add: dropWhile_eq_Nil_conv)
  have split: "drop i contents = ?t @ ?d" by simp
  have hd: "hd ?d = CHR 0x0A" using hd_dropWhile [OF dne] by simp
  then obtain d' where d': "?d = CHR 0x0A # d'" using dne by (cases ?d) auto
  have len: "length ?t + length ?d = length contents - i"
    by (metis length_append length_drop split)
  have "0 < length ?d" using dne by simp
  then have k: "?k < length contents" using len by linarith
  then have io: "indexOf contents (CHR 0x0A) i = int ?k" by (simp add: indexOf_def Let_def)
  have "substring contents i (Suc ?k) = take (Suc (length ?t)) (drop i contents)"
    using k by (simp add: substring_def Let_def min_def max_def)
  also have "\<dots> = take (Suc (length ?t)) (?t @ ?d)" by simp
  also have "\<dots> = ?t @ [CHR 0x0A]" unfolding d' by simp
  finally show ?thesis by (simp add: io lineFrom_def nat_add_distrib)
qed


lemma sort_newSet: "sort (newSet xs) = sort (remdups xs)"
  by (rule sorted_distinct_set_unique) simp_all

lemma toResult_lines:
  assumes "contents \<noteq> []" and "last contents = CHR 0x0A"
    and "\<forall>off \<in> set offsets. off < length contents \<and> contents ! off \<noteq> CHR 0x0A"
  shows "toResult (OffsetResult name score offsets) contents =
           Result name score
             (map (lineFrom contents) (sort (remdups (map (lineStart contents) offsets))))"
proof -
  have st: "map (\<lambda>off. nat (lastIndexOf contents (CHR 0x0A) off + 1)) offsets
      = map (lineStart contents) offsets"
    using assms(3) by (simp add: lineStart_code)
  have ln: "substring contents i (nat (indexOf contents (CHR 0x0A) i + 1)) = lineFrom contents i"
    if "i \<in> set (sort (newSet (map (lineStart contents) offsets)))" for i
  proof -
    from that obtain off where "off \<in> set offsets" and i: "i = lineStart contents off" by auto
    with assms(3) lineStart_le [of contents off] have "i < length contents" by fastforce
    then have "drop i contents \<noteq> []" by simp
    then have "last (drop i contents) = last contents" using \<open>i < length contents\<close> by simp
    then have "CHR 0x0A \<in> set (drop i contents)"
      using assms(2) \<open>drop i contents \<noteq> []\<close> by (metis last_in_set)
    then show ?thesis by (rule lineFrom_code)
  qed
  show ?thesis
    by (simp add: Let_def st sort_newSet [symmetric] ln cong: map_cong)
qed

section \<open>Stored contents end with a newline\<close>

lemma withNewline_last: "withNewline text \<noteq> [] \<and> last (withNewline text) = CHR 0x0A"
  by (auto simp: withNewline_def endsWith_single)

lemma reachable_terminated:
  "reachable s \<Longrightarrow> contentsTable s d = Some contents \<Longrightarrow>
   contents \<noteq> [] \<and> last contents = CHR 0x0A"
proof (induction arbitrary: d contents rule: reachable.induct)
  case reach_init
  then show ?case by (simp add: emptyState_def)
next
  case (reach_create s)
  then show ?case by (simp add: create_def)
next
  case (reach_clear s)
  then show ?case by (simp add: clear_def)
next
  case (reach_addContent s nm tx)
  from reach_addContent.prems have
    "(d = nm \<and> contents = withNewline tx) \<or> contentsTable s d = Some contents"
    by (auto simp: addContent_eq split: if_splits)
  then show ?case
  proof
    assume "d = nm \<and> contents = withNewline tx"
    then show ?thesis using withNewline_last [of tx] by simp
  next
    assume "contentsTable s d = Some contents"
    then show ?thesis by (rule reach_addContent.IH)
  qed
next
  case (reach_addNoiseWords s tx)
  then show ?case by (simp add: addNoiseWords_frame)
qed

lemma find_result:
  assumes "reachable s" and "find cmp text s = Inr rs" and "r \<in> set rs"
  shows "\<exists>contents. contentsTable s (nameOf r) = Some contents
           \<and> contents \<noteq> [] \<and> last contents = CHR 0x0A
           \<and> r = toResult (OffsetResult (nameOf r) (scoreOf r)
                   (map snd (matchedInfos s (newSet (words text s)) (nameOf r)))) contents"
proof -
  let ?terms = "newSet (words text s)"
  have c: "consistent s" using assms(1) by (rule reachable_consistent)
  from assms(2,3) obtain doc where doc: "doc \<in> set (findDocs ?terms s)" and r: "r = mkResult s doc"
    unfolding find_eq [OF c] by (auto simp: set_sortBy)
  from findDocs_contents [OF c doc] obtain contents
    where ct: "contentsTable s (fst doc) = Some contents" by blast
  have m: "snd doc = matchedInfos s ?terms (fst doc)" using c doc by (rule findDocs_entry(1))
  have n: "nameOf r = fst doc" unfolding r by (rule mkResult_sel)
  have sc: "scoreOf r = foldl (\<lambda>acc wordInfo. acc + fst wordInfo) 0 (snd doc)"
    unfolding r by (rule mkResult_sel)
  have "r = toResult (OffsetResult (nameOf r) (scoreOf r)
      (map snd (matchedInfos s ?terms (nameOf r)))) contents"
    unfolding n sc unfolding r mkResult_def ct m [symmetric] by simp
  then show ?thesis
    using ct reachable_terminated [OF assms(1) ct] n by auto
qed


section \<open>What the index records of a word\<close>

lemma map_of_indexStep:
  "map_of (indexStep index p) w =
     (if w = fst p
      then Some (case (case indexGet index (fst p) of Some v \<Rightarrow> v | None \<Rightarrow> WordInfo 0 (snd p)) of
                   WordInfo c off \<Rightarrow> WordInfo (c + 1) off
                 | ObjectConstructor \<Rightarrow> ObjectConstructor)
      else map_of index w)"
  by (simp add: indexStep_def Let_def map_of_setField)

lemma foldl_indexStep_counted:
  "map_of index w = Some (WordInfo c off) \<Longrightarrow>
   map_of (foldl indexStep index ps) w
     = Some (WordInfo (c + length (filter (\<lambda>p. fst p = w) ps)) off)"
proof (induction ps arbitrary: index c)
  case Nil
  then show ?case by simp
next
  case (Cons p ps)
  show ?case
  proof (cases "fst p = w")
    case True
    have "map_of (indexStep index p) w = Some (WordInfo (c + 1) off)"
      using True Cons.prems by (simp add: map_of_indexStep indexGet_def)
    from Cons.IH [OF this] True show ?thesis by simp
  next
    case False
    then have "map_of (indexStep index p) w = Some (WordInfo c off)"
      using Cons.prems by (simp add: map_of_indexStep)
    from Cons.IH [OF this] False show ?thesis by simp
  qed
qed

lemma foldl_indexStep_first:
  "map_of index w = None \<Longrightarrow> w \<noteq> ''constructor'' \<Longrightarrow>
   map_of (foldl indexStep index ps) w
     = (case filter (\<lambda>p. fst p = w) ps of
          [] \<Rightarrow> None
        | q # qs \<Rightarrow> Some (WordInfo (length (q # qs)) (snd q)))"
proof (induction ps arbitrary: index)
  case Nil
  then show ?case by simp
next
  case (Cons p ps)
  show ?case
  proof (cases "fst p = w")
    case True
    have "map_of (indexStep index p) w = Some (WordInfo 1 (snd p))"
      using True Cons.prems by (simp add: map_of_indexStep indexGet_def)
    from foldl_indexStep_counted [OF this, of ps] True show ?thesis by simp
  next
    case False
    then have "map_of (indexStep index p) w = None"
      using Cons.prems by (simp add: map_of_indexStep)
    from Cons.IH [OF this Cons.prems(2)] False show ?thesis by simp
  qed
qed

lemma first_of_sorted:
  assumes "sorted_wrt (<) (map snd ps)" and "filter P ps = q # qs" and "p \<in> set ps" and "P p"
  shows "snd q \<le> (snd p :: nat)"
proof -
  have "sorted_wrt (\<lambda>a b. snd a < snd b) ps" using assms(1) by (simp add: sorted_wrt_map)
  then have "sorted_wrt (\<lambda>a b. snd a < snd b) (filter P ps)" by (rule sorted_wrt_filter)
  then have "\<forall>x \<in> set qs. snd q < snd x" unfolding assms(2) by simp
  moreover have "p \<in> set (filter P ps)" using assms(3,4) by simp
  then have "p \<in> set (q # qs)" unfolding assms(2) .
  ultimately show ?thesis by auto
qed

lemma addContent_stored:
  assumes ok: "fst (addContent name text s) = Inr ()"
    and w: "w \<in> set (words (withNewline text) s)"
  shows "\<exists>c off. map_of (fieldsOf (wordsTable (snd (addContent name text s))) w) name = Some (c, off)
           \<and> c = length (filter (\<lambda>p. fst p = w) (wordsLow (withNewline text) s))
           \<and> (w, off) \<in> set (wordsLow (withNewline text) s)
           \<and> (\<forall>p \<in> set (wordsLow (withNewline text) s). fst p = w \<longrightarrow> off \<le> snd p)
           \<and> off < length (withNewline text) \<and> withNewline text ! off \<noteq> CHR 0x0A"
proof -
  let ?ps = "wordsLow (withNewline text) s"
  let ?index = "addedIndex text s"
  let ?occ = "filter (\<lambda>p. fst p = w) ?ps"
  have d: "distinct (map fst ?index)" by (simp add: addedIndex_def makeIndex_distinct)
  from ok w have nc: "w \<noteq> ''constructor''" by (auto simp: addContent_succeeds)
  from w obtain p0 where "p0 \<in> set ?ps" and "fst p0 = w" by (auto simp: words_def)
  then have "?occ \<noteq> []" by (auto simp: filter_empty_conv)
  then obtain q qs where occ: "?occ = q # qs" by (cases ?occ) auto
  then have "q \<in> set ?occ" by simp
  then have q: "q \<in> set ?ps" and qw: "fst q = w" by simp_all
  have ix: "map_of ?index w = Some (WordInfo (length ?occ) (snd q))"
    unfolding addedIndex_def makeIndex_def
    using foldl_indexStep_first [of "[]" w ?ps] nc occ by simp
  from ok have "okPrefix ?index = ?index" by (simp add: addContent_ok okPrefix_all)
  then have "wordsTable (snd (addContent name text s)) w
      = Some (setField name (length ?occ, snd q) (fieldsOf (wordsTable s) w))"
    using ix by (simp add: addContent_eq savedTable_lookup [OF d])
  then have st: "map_of (fieldsOf (wordsTable (snd (addContent name text s))) w) name
      = Some (length ?occ, snd q)"
    by (simp add: fieldsOf_def map_of_setField)
  have srt: "sorted_wrt (<) (map snd ?ps)" unfolding wordsLow_def by (rule wordsLoop_sorted)
  have least: "\<forall>p \<in> set ?ps. fst p = w \<longrightarrow> snd q \<le> snd p"
    using first_of_sorted [OF srt occ] by blast
  from wordsLow_sound [OF q] obtain raw where "isToken (withNewline text) (snd q) raw" by blast
  from isToken_first [OF this]
  have v: "snd q < length (withNewline text)" "withNewline text ! snd q \<noteq> CHR 0x0A"
    by (auto simp: isSpace_def)
  have "(w, snd q) \<in> set ?ps" using q qw by (metis prod.collapse)
  with st least v show ?thesis by blast
qed


lemma lineStart_split:
  "\<exists>pre seg. take off contents = pre @ seg \<and> length pre = lineStart contents off
     \<and> (pre = [] \<or> last pre = CHR 0x0A) \<and> CHR 0x0A \<notin> set seg"
proof -
  let ?b = "take off contents"
  let ?t = "takeWhile (\<lambda>c. c \<noteq> CHR 0x0A) (rev ?b)"
  let ?d = "dropWhile (\<lambda>c. c \<noteq> CHR 0x0A) (rev ?b)"
  have "rev ?b = ?t @ ?d" by simp
  then have b: "?b = rev ?d @ rev ?t" by (metis rev_append rev_rev_ident)
  have "length ?t + length ?d = length ?b"
    by (metis length_append length_rev takeWhile_dropWhile_id)
  then have l: "length (rev ?d) = lineStart contents off" by (simp add: lineStart_def)
  have e: "rev ?d = [] \<or> last (rev ?d) = CHR 0x0A"
  proof (cases "?d = []")
    case True
    then show ?thesis by simp
  next
    case False
    from hd_dropWhile [OF False] have "hd ?d = CHR 0x0A" by simp
    with False show ?thesis by (simp add: last_rev)
  qed
  have n: "CHR 0x0A \<notin> set (rev ?t)" using set_takeWhileD by fastforce
  from b l e n show ?thesis by blast
qed

text \<open>
  C4, as the code has it. \<open>OffsetResult.result\<close>: when the content ends with a newline and
  every offset lies in the content on a character other than a newline, the lines are the
  line starting at each distinct line start of the offsets, in ascending order of start,
  each running up to and including the next newline; the line start of an offset is the
  length of the longest prefix of the text before the offset that is empty or ends with a
  newline. \<open>find\<close>, in a state reached with documents added under plain names, builds
  each result from the stored content of the document and the offsets stored for it under
  the query terms. A successful \<open>addContent\<close> under a plain name stores, for each word of
  the text, the number of its occurrences and the
  offset of its first occurrence, which lies in the content on a non-newline character.
  Only the first occurrence of a term contributes a line: searching \<open>alpha\<close> in the
  document \<open>alpha beta / gamma alpha\<close> yields the single line \<open>alpha beta\<close>, with score 2.
\<close>

theorem excerpt_lines:
  "(contents \<noteq> [] \<and> last contents = CHR 0x0A
      \<and> (\<forall>off \<in> set offsets. off < length contents \<and> contents ! off \<noteq> CHR 0x0A) \<longrightarrow>
      toResult (OffsetResult name score offsets) contents =
        Result name score
          (map (lineFrom contents) (sort (remdups (map (lineStart contents) offsets)))))
   \<and> (\<exists>pre seg. take off contents = pre @ seg \<and> length pre = lineStart contents off
         \<and> (pre = [] \<or> last pre = CHR 0x0A) \<and> CHR 0x0A \<notin> set seg)
   \<and> (reachablePlain s \<and> find cmp query s = Inr rs \<and> r \<in> set rs \<longrightarrow>
        (\<exists>stored. contentsTable s (nameOf r) = Some stored
           \<and> stored \<noteq> [] \<and> last stored = CHR 0x0A
           \<and> r = toResult (OffsetResult (nameOf r) (scoreOf r)
                   (map snd (matchedInfos s (newSet (words query s)) (nameOf r)))) stored))
   \<and> (plainName name \<and> fst (addContent name contentText s) = Inr ()
        \<and> w \<in> set (words (withNewline contentText) s) \<longrightarrow>
        (\<exists>c first.
           map_of (fieldsOf (wordsTable (snd (addContent name contentText s))) w) name = Some (c, first)
           \<and> c = length (filter (\<lambda>p. fst p = w) (wordsLow (withNewline contentText) s))
           \<and> (w, first) \<in> set (wordsLow (withNewline contentText) s)
           \<and> (\<forall>p \<in> set (wordsLow (withNewline contentText) s). fst p = w \<longrightarrow> first \<le> snd p)
           \<and> first < length (withNewline contentText) \<and> withNewline contentText ! first \<noteq> CHR 0x0A))
   \<and> find lexCompare ''alpha'' alphaStore = Inr [Result ''d'' 2 [''alpha beta\<newline>'']]"
proof -
  have 1: "contents \<noteq> [] \<and> last contents = CHR 0x0A
      \<and> (\<forall>off \<in> set offsets. off < length contents \<and> contents ! off \<noteq> CHR 0x0A) \<longrightarrow>
      toResult (OffsetResult name score offsets) contents =
        Result name score
          (map (lineFrom contents) (sort (remdups (map (lineStart contents) offsets))))"
    using toResult_lines by blast
  have 3: "reachablePlain s \<and> find cmp query s = Inr rs \<and> r \<in> set rs \<longrightarrow>
        (\<exists>stored. contentsTable s (nameOf r) = Some stored
           \<and> stored \<noteq> [] \<and> last stored = CHR 0x0A
           \<and> r = toResult (OffsetResult (nameOf r) (scoreOf r)
                   (map snd (matchedInfos s (newSet (words query s)) (nameOf r)))) stored)"
    using find_result reachablePlain_reachable by blast
  have 4: "plainName name \<and> fst (addContent name contentText s) = Inr ()
        \<and> w \<in> set (words (withNewline contentText) s) \<longrightarrow>
        (\<exists>c first.
           map_of (fieldsOf (wordsTable (snd (addContent name contentText s))) w) name = Some (c, first)
           \<and> c = length (filter (\<lambda>p. fst p = w) (wordsLow (withNewline contentText) s))
           \<and> (w, first) \<in> set (wordsLow (withNewline contentText) s)
           \<and> (\<forall>p \<in> set (wordsLow (withNewline contentText) s). fst p = w \<longrightarrow> first \<le> snd p)
           \<and> first < length (withNewline contentText) \<and> withNewline contentText ! first \<noteq> CHR 0x0A)"
    using addContent_stored by blast
  have 5: "find lexCompare ''alpha'' alphaStore = Inr [Result ''d'' 2 [''alpha beta\<newline>'']]"
    unfolding alphaStore_def by code_simp
  from 1 lineStart_split 3 4 5 show ?thesis by (intro conjI)
qed

text \<open>
  The second line of the example document holds a later occurrence of \<open>alpha\<close>, not its
  first: it is not part of the result.
\<close>

theorem second_line_counterexample:
  "find lexCompare ''alpha'' alphaStore
     \<noteq> Inr [Result ''d'' 2 [''alpha beta\<newline>'', ''gamma alpha\<newline>'']]"
proof -
  have "find lexCompare ''alpha'' alphaStore = Inr [Result ''d'' 2 [''alpha beta\<newline>'']]"
    unfolding alphaStore_def by code_simp
  then show ?thesis by simp
qed

lemma alpha_examples:
  "map (lineFrom ''alpha beta\<newline>gamma alpha\<newline>'')
     (sort (remdups (map (lineStart ''alpha beta\<newline>gamma alpha\<newline>'') [11, 6, 0])))
     = [''alpha beta\<newline>'', ''gamma alpha\<newline>'']"
  "fst (addContent ''d'' ''alpha beta\<newline>gamma alpha\<newline>'' emptyState) = Inr ()"
  "withNewline ''alpha beta\<newline>gamma alpha\<newline>'' = ''alpha beta\<newline>gamma alpha\<newline>''"
  "words ''alpha beta\<newline>gamma alpha\<newline>'' emptyState = [''alpha'', ''beta'', ''gamma'', ''alpha'']"
  "wordsLow ''alpha beta\<newline>gamma alpha\<newline>'' emptyState
     = [(''alpha'', 0), (''beta'', 6), (''gamma'', 11), (''alpha'', 17)]"
  "contentsTable alphaStore ''d'' = Some ''alpha beta\<newline>gamma alpha\<newline>''"
  "matchedInfos alphaStore (newSet (words ''alpha'' alphaStore)) ''d'' = [(2, 0)]"
  unfolding alphaStore_def by code_simp+

theorem excerpt_lines_witness:
  "toResult (OffsetResult ''d'' 4 [11, 6, 0]) ''alpha beta\<newline>gamma alpha\<newline>''
     = Result ''d'' 4 [''alpha beta\<newline>'', ''gamma alpha\<newline>'']
   \<and> plainName ''d''
   \<and> reachablePlain alphaStore
   \<and> find lexCompare ''alpha'' alphaStore = Inr [Result ''d'' 2 [''alpha beta\<newline>'']]
   \<and> Result ''d'' 2 [''alpha beta\<newline>'']
       = toResult (OffsetResult ''d'' 2 [0]) ''alpha beta\<newline>gamma alpha\<newline>''
   \<and> map_of (fieldsOf (wordsTable alphaStore) ''alpha'') ''d'' = Some (2, 0)"
proof -
  let ?doc = "''alpha beta\<newline>gamma alpha\<newline>''"
  let ?r = "Result ''d'' 2 [''alpha beta\<newline>'']"
  note t = excerpt_lines [where contents = ?doc and offsets = "[11, 6, 0]" and name = "''d''"
      and score = 4 and s = alphaStore and cmp = lexCompare and query = "''alpha''"
      and rs = "[?r]" and r = ?r]
  note u = excerpt_lines [where name = "''d''" and contentText = ?doc and s = emptyState
      and w = "''alpha''"]
  have p: "plainName ''d''" by (simp add: plainName_def)
  have r: "reachablePlain alphaStore"
    unfolding alphaStore_def using p by (intro plain_addContent plain_init)
  have "?doc \<noteq> [] \<and> last ?doc = CHR 0x0A
      \<and> (\<forall>off \<in> set [11, 6, 0]. off < length ?doc \<and> ?doc ! off \<noteq> CHR 0x0A)"
    by simp
  with t have 1: "toResult (OffsetResult ''d'' 4 [11, 6, 0]) ?doc
      = Result ''d'' 4 [''alpha beta\<newline>'', ''gamma alpha\<newline>'']"
    unfolding alpha_examples(1) by blast
  from t have f: "find lexCompare ''alpha'' alphaStore = Inr [?r]" by blast
  have "reachablePlain alphaStore \<and> find lexCompare ''alpha'' alphaStore = Inr [?r] \<and> ?r \<in> set [?r]"
    using r f by simp
  with t obtain stored where "contentsTable alphaStore (nameOf ?r) = Some stored"
    and "?r = toResult (OffsetResult (nameOf ?r) (scoreOf ?r)
          (map snd (matchedInfos alphaStore (newSet (words ''alpha'' alphaStore)) (nameOf ?r)))) stored"
    by blast
  then have 2: "?r = toResult (OffsetResult ''d'' 2 [0]) ?doc"
    by (simp add: alpha_examples del: toResult.simps)
  have "plainName ''d'' \<and> fst (addContent ''d'' ?doc emptyState) = Inr ()
      \<and> ''alpha'' \<in> set (words (withNewline ?doc) emptyState)"
    using p by (simp add: alpha_examples)
  with u obtain c first where
    "map_of (fieldsOf (wordsTable (snd (addContent ''d'' ?doc emptyState))) ''alpha'') ''d''
       = Some (c, first)"
    and "c = length (filter (\<lambda>p. fst p = ''alpha'') (wordsLow (withNewline ?doc) emptyState))"
    and "\<forall>p \<in> set (wordsLow (withNewline ?doc) emptyState). fst p = ''alpha'' \<longrightarrow> first \<le> snd p"
    by blast
  then have 3: "map_of (fieldsOf (wordsTable alphaStore) ''alpha'') ''d'' = Some (2, 0)"
    by (simp add: alpha_examples alphaStore_def)
  from 1 p r f 2 3 show ?thesis by (intro conjI)
qed

end
